theory Spec2Isabelle
  imports Main "HOL-Library.AList"
begin

section \<open>The graph library used by \<^verbatim>\<open>artist_finder.py\<close>\<close>

text \<open>
  \<^verbatim>\<open>artist_finder.py\<close> works on \<^verbatim>\<open>networkx.Graph\<close> objects: undirected graphs without
  parallel edges, kept in insertion-ordered dictionaries. A graph value is the list of its
  nodes (each once, in insertion order) and the list of its edges (each undirected edge
  once, as one ordered pair; a self-loop is the pair \<open>(n, n)\<close>).
\<close>

record 'a graph =
  nodes :: "'a list"
  edges :: "('a \<times> 'a) list"

definition empty_graph :: "'a graph" where
  "empty_graph = \<lparr>nodes = [], edges = []\<rparr>"

text \<open>\<^verbatim>\<open>G.has_edge(u, v)\<close>: the edge is there in one of the two directions.\<close>

definition has_edge :: "'a graph \<Rightarrow> 'a \<Rightarrow> 'a \<Rightarrow> bool" where
  "has_edge g u v = ((u, v) \<in> set (edges g) \<or> (v, u) \<in> set (edges g))"

text \<open>What every \<^verbatim>\<open>networkx.Graph\<close> satisfies: no node and no edge twice, and the end
  points of every edge are nodes.\<close>

definition wf_graph :: "'a graph \<Rightarrow> bool" where
  "wf_graph g =
     (distinct (nodes g) \<and> distinct (edges g) \<and>
      (\<forall>e \<in> set (edges g). fst e \<in> set (nodes g) \<and> snd e \<in> set (nodes g) \<and>
         (fst e \<noteq> snd e \<longrightarrow> (snd e, fst e) \<notin> set (edges g))))"

text \<open>The undirected edges of a graph, as sets of one or two end points.\<close>

definition edge_set :: "'a graph \<Rightarrow> 'a set set" where
  "edge_set g = (\<lambda>e. {fst e, snd e}) ` set (edges g)"

text \<open>\<^verbatim>\<open>G.add_node(n)\<close>, \<^verbatim>\<open>G.add_nodes_from(ns)\<close>: a node already present stays where it is.\<close>

definition add_node :: "'a \<Rightarrow> 'a graph \<Rightarrow> 'a graph" where
  "add_node n g = (if n \<in> set (nodes g) then g else g\<lparr>nodes := nodes g @ [n]\<rparr>)"

definition add_nodes_from :: "'a list \<Rightarrow> 'a graph \<Rightarrow> 'a graph" where
  "add_nodes_from ns g = fold add_node ns g"

text \<open>\<^verbatim>\<open>G.add_edge(u, v)\<close> inserts both end points as nodes when they are missing, and
  the edge unless it is already there (in either direction).\<close>

definition add_edge :: "'a \<Rightarrow> 'a \<Rightarrow> 'a graph \<Rightarrow> 'a graph" where
  "add_edge u v g =
     (let g' = add_node v (add_node u g)
      in if has_edge g' u v then g' else g'\<lparr>edges := edges g' @ [(u, v)]\<rparr>)"

definition add_edges_from :: "('a \<times> 'a) list \<Rightarrow> 'a graph \<Rightarrow> 'a graph" where
  "add_edges_from es g = fold (\<lambda>e. add_edge (fst e) (snd e)) es g"

text \<open>\<^verbatim>\<open>G.remove_nodes_from(ns)\<close> deletes each listed node with its incident edges and
  silently skips a node that is not in the graph.\<close>

definition remove_node :: "'a \<Rightarrow> 'a graph \<Rightarrow> 'a graph" where
  "remove_node n g =
     (if n \<in> set (nodes g)
      then g\<lparr>nodes := removeAll n (nodes g),
             edges := filter (\<lambda>e. fst e \<noteq> n \<and> snd e \<noteq> n) (edges g)\<rparr>
      else g)"

definition remove_nodes_from :: "'a list \<Rightarrow> 'a graph \<Rightarrow> 'a graph" where
  "remove_nodes_from ns g = fold remove_node ns g"

text \<open>\<^verbatim>\<open>G.degree(x)\<close>: the number of edge ends at \<open>x\<close>; a self-loop counts twice.\<close>

definition degree :: "'a graph \<Rightarrow> 'a \<Rightarrow> nat" where
  "degree g x = length (filter (\<lambda>e. fst e = x) (edges g)) + length (filter (\<lambda>e. snd e = x) (edges g))"

section \<open>\<^verbatim>\<open>trim\<close>\<close>

text \<open>
  \<^verbatim>\<open>to_remove = [x for x in graph.nodes if graph.degree(x) < 2 and x not in keepers]\<close>
\<close>

definition to_remove :: "'a graph \<Rightarrow> 'a set \<Rightarrow> 'a list" where
  "to_remove g keepers = filter (\<lambda>x. degree g x < 2 \<and> x \<notin> keepers) (nodes g)"

lemma removeAll_filter: "removeAll n xs = filter (\<lambda>x. x \<noteq> n) xs"
  by (induction xs) auto

lemma nodes_remove_node: "nodes (remove_node n g) = filter (\<lambda>x. x \<noteq> n) (nodes g)"
  by (simp add: remove_node_def removeAll_filter[symmetric])

lemma nodes_remove_nodes_from:
  "nodes (remove_nodes_from ns g) = filter (\<lambda>x. x \<notin> set ns) (nodes g)"
  unfolding remove_nodes_from_def
proof (induction ns arbitrary: g)
  case Nil
  show ?case by simp
next
  case (Cons n ns)
  have "(\<lambda>x. x \<notin> set ns \<and> x \<noteq> n) = (\<lambda>x. x \<noteq> n \<and> x \<notin> set ns)" by auto
  then show ?case by (simp add: Cons nodes_remove_node)
qed

lemma length_nodes_to_remove:
  assumes "to_remove g keepers \<noteq> []"
  shows "length (nodes (remove_nodes_from (to_remove g keepers) g)) < length (nodes g)"
proof -
  from assms obtain x where x: "x \<in> set (to_remove g keepers)"
    by (cases "to_remove g keepers") auto
  then have "x \<in> set (nodes g)" by (simp add: to_remove_def)
  with x show ?thesis
    unfolding nodes_remove_nodes_from by (intro length_filter_less[of x]) auto
qed

text \<open>The \<^verbatim>\<open>while True\<close> loop of \<^verbatim>\<open>trim\<close>: remove the current batch of leaves, until a
  pass finds none.\<close>

function trim_loop :: "'a graph \<Rightarrow> 'a set \<Rightarrow> 'a graph" where
  "trim_loop g keepers =
     (if to_remove g keepers \<noteq> []
      then trim_loop (remove_nodes_from (to_remove g keepers) g) keepers
      else g)"
  by pat_completeness auto
termination
  by (relation "measure (\<lambda>(g, keepers). length (nodes g))") (auto simp: length_nodes_to_remove)

declare trim_loop.simps [simp del]

text \<open>\<^verbatim>\<open>graph = graph.copy()\<close> is the identity on graph values.\<close>

definition trim :: "'a graph \<Rightarrow> 'a set \<Rightarrow> 'a graph" where
  "trim g keepers = trim_loop g keepers"

section \<open>\<^verbatim>\<open>expand\<close> and \<^verbatim>\<open>grow\<close>\<close>

text \<open>
  The exceptions the modelled functions can leave with: the \<^verbatim>\<open>RuntimeError("No new artists found.")\<close>
  of \<^verbatim>\<open>grow\<close>, and the two exceptions of the graph library's path functions.
\<close>

datatype error = NoNewArtists | NodeNotFound | NetworkXNoPath

text \<open>
  \<^verbatim>\<open>nx.has_path(G, source, target)\<close>: some path joins the two nodes. The library raises
  \<^verbatim>\<open>NodeNotFound\<close> for an end point outside the graph; \<^verbatim>\<open>grow\<close> only asks about seeds,
  which it has inserted as nodes before, and nothing in \<^verbatim>\<open>grow\<close> removes a node.
\<close>

definition has_path :: "'a graph \<Rightarrow> 'a \<Rightarrow> 'a \<Rightarrow> bool" where
  "has_path g s t = (s = t \<or> (s, t) \<in> (set (edges g @ map prod.swap (edges g)))\<^sup>+)"

text \<open>\<^verbatim>\<open>itertools.combinations(xs, 2)\<close>.\<close>

fun combinations :: "'a list \<Rightarrow> ('a \<times> 'a) list" where
  "combinations [] = []"
| "combinations (x # xs) = map (Pair x) xs @ combinations xs"

text \<open>\<^verbatim>\<open>all(nx.has_path(graph, source, target) for source, target in combinations(seeds, 2))\<close>\<close>

definition seeds_connected :: "'a graph \<Rightarrow> 'a list \<Rightarrow> bool" where
  "seeds_connected g seeds = list_all (\<lambda>p. has_path g (fst p) (snd p)) (combinations seeds)"

text \<open>
  The relation source is the method \<^verbatim>\<open>artist.related()\<close> of the \<^verbatim>\<open>Artist\<close> class, which is
  outside this repository's sources: it is the parameter \<open>related\<close>, and every call is
  recorded in a log of the queried artists, which the functions pass along. A Python set
  is the list of its elements in iteration order; \<^verbatim>\<open>{Artist(a) for a in artists}\<close> drops
  the repetitions (\<open>remdups\<close>), artists being already resolved here.
\<close>

text \<open>\<^verbatim>\<open>if graph is None: graph = nx.Graph()  else: graph = graph.copy()\<close>\<close>

definition copy_or_new :: "'a graph option \<Rightarrow> 'a graph" where
  "copy_or_new graph = (case graph of None \<Rightarrow> empty_graph | Some g \<Rightarrow> g)"

definition expand ::
  "('a \<Rightarrow> 'a list) \<Rightarrow> 'a list \<Rightarrow> 'a graph option \<Rightarrow> 'a list \<Rightarrow> 'a graph \<times> 'a list" where
  "expand related artists graph log =
     (let artists = remdups artists;
          graph = copy_or_new graph;
          graph = add_nodes_from artists graph
      in fold (\<lambda>artist (graph, log).
                 (add_edges_from (map (Pair artist) (related artist)) graph, log @ [artist]))
           artists (graph, log))"

text \<open>
  The \<^verbatim>\<open>while\<close> loop of \<^verbatim>\<open>grow\<close>. It need not end (a relation source can keep
  producing new artists), so the result is an option: \<open>None\<close> is a run that never returns.
\<close>

partial_function (option) grow_loop ::
  "('a \<Rightarrow> 'a list) \<Rightarrow> 'a list \<Rightarrow> 'a graph \<Rightarrow> 'a list \<Rightarrow> 'a list
     \<Rightarrow> ((error + 'a graph \<times> 'a list) \<times> 'a list) option" where
  "grow_loop related seeds graph new_artists log =
     (if seeds_connected graph seeds then Some (Inr (graph, new_artists), log)
      else let new = expand related new_artists (Some graph) log;
               new_graph = fst new;
               new_artists = filter (\<lambda>n. n \<notin> set (nodes graph)) (nodes new_graph)
           in if new_artists = [] then Some (Inl NoNewArtists, snd new)
              else grow_loop related seeds new_graph new_artists (snd new))"

declare grow_loop.simps [code]

text \<open>The finishing pass of \<^verbatim>\<open>grow\<close>: the new interconnections.\<close>

definition interconnect ::
  "('a \<Rightarrow> 'a list) \<Rightarrow> 'a list \<Rightarrow> 'a graph \<Rightarrow> 'a list \<Rightarrow> 'a graph \<times> 'a list" where
  "interconnect related new_artists graph log =
     fold (\<lambda>artist (graph, log).
             (fold (\<lambda>rel graph. if rel \<in> set (nodes graph) then add_edge artist rel graph else graph)
                (related artist) graph,
              log @ [artist]))
       new_artists (graph, log)"

definition grow ::
  "('a \<Rightarrow> 'a list) \<Rightarrow> 'a list \<Rightarrow> 'a graph option \<Rightarrow> 'a list
     \<Rightarrow> ((error + 'a graph) \<times> 'a list) option" where
  "grow related seeds graph log =
     (let seeds = remdups seeds;
          graph = copy_or_new graph;
          graph = add_nodes_from seeds graph
      in case grow_loop related seeds graph seeds log of
           None \<Rightarrow> None
         | Some (Inl e, log) \<Rightarrow> Some (Inl e, log)
         | Some (Inr (graph, new_artists), log) \<Rightarrow>
             (let fin = interconnect related new_artists graph log
              in Some (Inr (fst fin), snd fin)))"

section \<open>\<^verbatim>\<open>paths_subgraph\<close>\<close>

text \<open>
  All simple paths from \<open>u\<close> to \<open>t\<close> whose nodes after \<open>u\<close> are taken from \<open>unvisited\<close>,
  by depth-first search.
\<close>

fun simple_paths_from :: "'a graph \<Rightarrow> 'a \<Rightarrow> 'a list \<Rightarrow> 'a \<Rightarrow> 'a list list" where
  "simple_paths_from g t unvisited u =
     (if u = t then [[u]]
      else concat (map (\<lambda>v. map ((#) u) (simple_paths_from g t (removeAll v unvisited) v))
                     (filter (\<lambda>v. has_edge g u v) unvisited)))"

declare simple_paths_from.simps [simp del]

definition all_simple_paths :: "'a graph \<Rightarrow> 'a \<Rightarrow> 'a \<Rightarrow> 'a list list" where
  "all_simple_paths g s t = simple_paths_from g t (removeAll s (nodes g)) s"

text \<open>
  \<^verbatim>\<open>nx.shortest_simple_paths(G, source, target)\<close> is a generator of all simple paths from
  source to target, from the shortest on. It raises \<^verbatim>\<open>NodeNotFound\<close> when an end point is no
  node of \<open>G\<close> and \<^verbatim>\<open>NetworkXNoPath\<close> when no path joins them. The library fixes no order
  among paths of equal length; here it is the order of the depth-first enumeration,
  stably sorted by length, and the theorems below speak of the set of collected paths.
  The generator has no effect, so consuming a prefix of it is taking a prefix of the list.
\<close>

definition shortest_simple_paths :: "'a graph \<Rightarrow> 'a \<Rightarrow> 'a \<Rightarrow> error + 'a list list" where
  "shortest_simple_paths g s t =
     (if s \<notin> set (nodes g) then Inl NodeNotFound
      else if t \<notin> set (nodes g) then Inl NodeNotFound
      else let ps = sort_key length (all_simple_paths g s t)
           in if ps = [] then Inl NetworkXNoPath else Inr ps)"

text \<open>
  The inner \<^verbatim>\<open>for path in ...\<close> loop with its \<^verbatim>\<open>break\<close>; \<open>acc\<close> is \<^verbatim>\<open>paths[pair]\<close>. The
  length of a path is \<^verbatim>\<open>len(path)\<close>, the number of its nodes. After \<^verbatim>\<open>paths[pair].append(path)\<close>
  the last element of \<^verbatim>\<open>paths[pair]\<close> is \<open>path\<close>.
\<close>

fun collect :: "int option \<Rightarrow> 'a list list \<Rightarrow> 'a list list \<Rightarrow> 'a list list" where
  "collect pair_max_len [] acc = acc"
| "collect None (path # rest) acc = collect (Some (int (length path))) rest (acc @ [path])"
| "collect (Some m) (path # rest) acc =
     (if int (length path) \<le> m then collect (Some m) rest (acc @ [path]) else acc)"

text \<open>The path table is a Python dictionary from pairs to lists of paths, in insertion order.\<close>

type_synonym 'a path_table = "(('a \<times> 'a) \<times> 'a list list) list"

text \<open>The outer \<^verbatim>\<open>for pair in combinations(seeds, 2)\<close> loop; an exception of the generator
  ends the call.\<close>

fun paths_loop ::
  "'a graph \<Rightarrow> int option \<Rightarrow> ('a \<times> 'a) list \<Rightarrow> 'a path_table \<Rightarrow> error + 'a path_table" where
  "paths_loop g max_len [] paths = Inr paths"
| "paths_loop g max_len (pair # pairs) paths =
     (case shortest_simple_paths g (fst pair) (snd pair) of
        Inl e \<Rightarrow> Inl e
      | Inr ps \<Rightarrow> paths_loop g max_len pairs (AList.update pair (collect max_len ps []) paths))"

definition path_nodes :: "'a path_table \<Rightarrow> 'a set" where
  "path_nodes paths =
     fold (\<lambda>entry keepers. fold (\<lambda>path keepers. keepers \<union> set path) (snd entry) keepers) paths {}"

definition paths_subgraph ::
  "'a graph \<Rightarrow> 'a list \<Rightarrow> int option \<Rightarrow> error + 'a graph \<times> 'a path_table" where
  "paths_subgraph graph seeds max_len =
     (case paths_loop graph max_len (combinations seeds) [] of
        Inl e \<Rightarrow> Inl e
      | Inr paths \<Rightarrow>
          (let keepers = path_nodes paths;
               graph = remove_nodes_from (filter (\<lambda>n. n \<notin> keepers) (nodes graph)) graph
           in Inr (graph, paths)))"

section \<open>The four functions on a store of graph objects\<close>

text \<open>
  A Python variable holds a reference to a graph object, and the methods of a graph change
  the object in place. To speak of what a call does to the objects that exist before it,
  the four functions are modelled once more on a store: references are numbers, the store
  maps each reference to the graph value of that object, and \<open>next_ref\<close> is the first
  reference not yet in use. Every statement of the source that creates a graph
  (\<^verbatim>\<open>nx.Graph()\<close>, \<^verbatim>\<open>graph.copy()\<close>) is an \<open>alloc\<close>, every method call that changes a graph
  is a \<open>modify\<close> of the object the variable refers to at that point.
\<close>

record 'a heap =
  objects :: "nat \<Rightarrow> 'a graph"
  next_ref :: nat

definition alloc :: "'a graph \<Rightarrow> 'a heap \<Rightarrow> nat \<times> 'a heap" where
  "alloc g h = (next_ref h, \<lparr>objects = (objects h)(next_ref h := g), next_ref = Suc (next_ref h)\<rparr>)"

definition modify :: "nat \<Rightarrow> ('a graph \<Rightarrow> 'a graph) \<Rightarrow> 'a heap \<Rightarrow> 'a heap" where
  "modify r f h = h\<lparr>objects := (objects h)(r := f (objects h r))\<rparr>"

text \<open>\<^verbatim>\<open>if graph is None: graph = nx.Graph()  else: graph = graph.copy()\<close>\<close>

definition copy_or_new_obj :: "nat option \<Rightarrow> 'a heap \<Rightarrow> nat \<times> 'a heap" where
  "copy_or_new_obj graph h =
     (case graph of None \<Rightarrow> alloc empty_graph h | Some r \<Rightarrow> alloc (objects h r) h)"

definition expand_obj ::
  "('a \<Rightarrow> 'a list) \<Rightarrow> 'a list \<Rightarrow> nat option \<Rightarrow> 'a heap \<Rightarrow> nat \<times> 'a heap" where
  "expand_obj related artists graph h =
     (let artists = remdups artists;
          new = copy_or_new_obj graph h;
          graph = fst new;
          h = modify graph (add_nodes_from artists) (snd new);
          h = fold (\<lambda>artist. modify graph (add_edges_from (map (Pair artist) (related artist))))
                artists h
      in (graph, h))"

text \<open>In the loop of \<^verbatim>\<open>grow\<close> the set \<^verbatim>\<open>new_graph.nodes - graph.nodes\<close> is read from the store
  after the call of \<^verbatim>\<open>expand\<close>, and then the variable \<^verbatim>\<open>graph\<close> is bound to the new
  object.\<close>

partial_function (option) grow_obj_loop ::
  "('a \<Rightarrow> 'a list) \<Rightarrow> 'a list \<Rightarrow> nat \<Rightarrow> 'a list \<Rightarrow> 'a heap
     \<Rightarrow> ((error + nat \<times> 'a list) \<times> 'a heap) option" where
  "grow_obj_loop related seeds graph new_artists h =
     (if seeds_connected (objects h graph) seeds then Some (Inr (graph, new_artists), h)
      else let new = expand_obj related new_artists (Some graph) h;
               new_graph = fst new;
               h = snd new;
               new_artists = filter (\<lambda>n. n \<notin> set (nodes (objects h graph))) (nodes (objects h new_graph))
           in if new_artists = [] then Some (Inl NoNewArtists, h)
              else grow_obj_loop related seeds new_graph new_artists h)"

declare grow_obj_loop.simps [code]

definition interconnect_obj ::
  "('a \<Rightarrow> 'a list) \<Rightarrow> 'a list \<Rightarrow> nat \<Rightarrow> 'a heap \<Rightarrow> 'a heap" where
  "interconnect_obj related new_artists graph h =
     fold (\<lambda>artist h.
             fold (\<lambda>rel h. if rel \<in> set (nodes (objects h graph))
                            then modify graph (add_edge artist rel) h else h)
               (related artist) h)
       new_artists h"

definition grow_obj ::
  "('a \<Rightarrow> 'a list) \<Rightarrow> 'a list \<Rightarrow> nat option \<Rightarrow> 'a heap \<Rightarrow> ((error + nat) \<times> 'a heap) option" where
  "grow_obj related seeds graph h =
     (let seeds = remdups seeds;
          new = copy_or_new_obj graph h;
          graph = fst new;
          h = modify graph (add_nodes_from seeds) (snd new)
      in case grow_obj_loop related seeds graph seeds h of
           None \<Rightarrow> None
         | Some (Inl e, h) \<Rightarrow> Some (Inl e, h)
         | Some (Inr (graph, new_artists), h) \<Rightarrow>
             Some (Inr graph, interconnect_obj related new_artists graph h))"

lemma trim_obj_loop_decreases:
  "to_remove (objects h r) keepers \<noteq> [] \<Longrightarrow>
   length (nodes (objects (modify r (remove_nodes_from (to_remove (objects h r) keepers)) h) r))
     < length (nodes (objects h r))"
  by (simp add: modify_def length_nodes_to_remove)

function trim_obj_loop :: "nat \<Rightarrow> 'a set \<Rightarrow> 'a heap \<Rightarrow> 'a heap" where
  "trim_obj_loop graph keepers h =
     (if to_remove (objects h graph) keepers \<noteq> []
      then trim_obj_loop graph keepers
             (modify graph (remove_nodes_from (to_remove (objects h graph) keepers)) h)
      else h)"
  by pat_completeness auto
termination
  by (relation "measure (\<lambda>(graph, keepers, h). length (nodes (objects h graph)))")
     (auto simp: trim_obj_loop_decreases)

declare trim_obj_loop.simps [simp del]

definition trim_obj :: "nat \<Rightarrow> 'a set \<Rightarrow> 'a heap \<Rightarrow> nat \<times> 'a heap" where
  "trim_obj graph keepers h =
     (let new = alloc (objects h graph) h;
          graph = fst new
      in (graph, trim_obj_loop graph keepers (snd new)))"

definition paths_subgraph_obj ::
  "nat \<Rightarrow> 'a list \<Rightarrow> int option \<Rightarrow> 'a heap \<Rightarrow> (error + nat \<times> 'a path_table) \<times> 'a heap" where
  "paths_subgraph_obj graph seeds max_len h =
     (let new = alloc (objects h graph) h;
          graph = fst new;
          h = snd new
      in case paths_loop (objects h graph) max_len (combinations seeds) [] of
           Inl e \<Rightarrow> (Inl e, h)
         | Inr paths \<Rightarrow>
             (let keepers = path_nodes paths;
                  h = modify graph
                        (\<lambda>g. remove_nodes_from (filter (\<lambda>n. n \<notin> keepers) (nodes g)) g) h
              in (Inr (graph, paths), h)))"


text \<open>No object that exists in \<open>h\<close> is changed in \<open>h'\<close>; the reference \<open>r\<close> is new in \<open>h'\<close>.\<close>

definition unchanged :: "'a heap \<Rightarrow> 'a heap \<Rightarrow> bool" where
  "unchanged h h' = (next_ref h \<le> next_ref h' \<and> (\<forall>a < next_ref h. objects h' a = objects h a))"

definition fresh_result :: "'a heap \<Rightarrow> nat \<Rightarrow> 'a heap \<Rightarrow> bool" where
  "fresh_result h r h' = (next_ref h \<le> r \<and> r < next_ref h' \<and> unchanged h h')"


section \<open>Paths and what \<^verbatim>\<open>paths_subgraph\<close> collects\<close>

text \<open>A simple path from \<open>s\<close> to \<open>t\<close>: a list of distinct nodes, consecutive ones joined by an edge.\<close>

definition is_simple_path :: "'a graph \<Rightarrow> 'a \<Rightarrow> 'a \<Rightarrow> 'a list \<Rightarrow> bool" where
  "is_simple_path g s t p =
     (p \<noteq> [] \<and> hd p = s \<and> last p = t \<and> distinct p \<and> set p \<subseteq> set (nodes g) \<and>
      successively (has_edge g) p)"


text \<open>What the two loops leave in \<^verbatim>\<open>paths[pair]\<close> when the generator does not raise.\<close>

definition entry :: "'a graph \<Rightarrow> int option \<Rightarrow> 'a \<times> 'a \<Rightarrow> 'a list list" where
  "entry g max_len pair = collect max_len (sort_key length (all_simple_paths g (fst pair) (snd pair))) []"


section \<open>Example graphs\<close>

text \<open>A triangle \<open>0, 1, 2\<close> with a tail \<open>2 - 3 - 4\<close> and an isolated node \<open>5\<close>.\<close>

definition triangle_tail :: "nat graph" where
  "triangle_tail = \<lparr>nodes = [0, 1, 2, 3, 4, 5], edges = [(0, 1), (1, 2), (2, 0), (2, 3), (3, 4)]\<rparr>"

text \<open>A base graph a - m - b, and a relation source where a is related to b and to z.\<close>

definition amb :: "string graph" where
  "amb = \<lparr>nodes = [''a'', ''m'', ''b''], edges = [(''a'', ''m''), (''m'', ''b'')]\<rparr>"

definition a_to_b_z :: "string \<Rightarrow> string list" where
  "a_to_b_z n = (if n = ''a'' then [''b'', ''z''] else [])"

text \<open>The relation source of the end-to-end scenario: a is related to x, x to b, b to nobody.\<close>

definition chain :: "string \<Rightarrow> string list" where
  "chain n = (if n = ''a'' then [''x''] else if n = ''x'' then [''b''] else [])"

text \<open>The graph a - x - b that the scenario expects from \<^verbatim>\<open>grow\<close>.\<close>

definition axb :: "string graph" where
  "axb = \<lparr>nodes = [''a'', ''b'', ''x''], edges = [(''a'', ''x''), (''x'', ''b'')]\<rparr>"

text \<open>A relation source where a is related to b only.\<close>

definition direct :: "string \<Rightarrow> string list" where
  "direct n = (if n = ''a'' then [''b''] else [])"

text \<open>The base graph with the one edge a - b.\<close>

definition ab_edge :: "string graph" where
  "ab_edge = \<lparr>nodes = [''a'', ''b''], edges = [(''a'', ''b'')]\<rparr>"


text \<open>Two nodes and no edge.\<close>

definition two_isolated :: "string graph" where
  "two_isolated = \<lparr>nodes = [''a'', ''b''], edges = []\<rparr>"

text \<open>The edge 0 - 1 and the isolated node 2.\<close>

definition one_edge :: "nat graph" where
  "one_edge = \<lparr>nodes = [0, 1, 2], edges = [(0, 1)]\<rparr>"

text \<open>The two components 0 - 1 and 2 - 3.\<close>

definition two_edges :: "nat graph" where
  "two_edges = \<lparr>nodes = [0, 1, 2, 3], edges = [(0, 1), (2, 3)]\<rparr>"

text \<open>Between A and B: the routes over m and over n, and the longer route over u and v.\<close>

definition two_routes :: "string graph" where
  "two_routes = \<lparr>nodes = [''A'', ''B'', ''m'', ''n'', ''u'', ''v''],
     edges = [(''A'', ''u''), (''u'', ''v''), (''v'', ''B''), (''A'', ''m''), (''m'', ''B''),
              (''A'', ''n''), (''n'', ''B'')]\<rparr>"


text \<open>A relation source where a and b are both related to x; a store with one graph.\<close>

definition meet :: "string \<Rightarrow> string list" where
  "meet n = (if n = ''a'' then [''x''] else if n = ''b'' then [''x'']
             else if n = ''x'' then [''a'', ''b''] else [])"

definition one_graph :: "string heap" where
  "one_graph = \<lparr>objects = (\<lambda>_. empty_graph)(0 := two_isolated), next_ref = 1\<rparr>"


section \<open>Properties of \<^verbatim>\<open>trim\<close>\<close>

lemma to_remove_trim_loop: "to_remove (trim_loop g K) K = []"
  by (induction g K rule: trim_loop.induct) (subst trim_loop.simps, simp)

lemma keeper_in_trim_loop:
  "x \<in> K \<Longrightarrow> x \<in> set (nodes g) \<Longrightarrow> x \<in> set (nodes (trim_loop g K))"
proof (induction g K rule: trim_loop.induct)
  case (1 g keepers)
  show ?case
  proof (cases "to_remove g keepers = []")
    case True
    then show ?thesis using 1 by (subst trim_loop.simps) simp
  next
    case False
    have "x \<notin> set (to_remove g keepers)" using 1(2) by (simp add: to_remove_def)
    then have "x \<in> set (nodes (remove_nodes_from (to_remove g keepers) g))"
      using 1(3) by (simp add: nodes_remove_nodes_from)
    with 1 False show ?thesis by (subst trim_loop.simps) simp
  qed
qed

lemma trim_triangle_tail:
  "trim triangle_tail {5} = \<lparr>nodes = [0, 1, 2, 5], edges = [(0, 1), (1, 2), (2, 0)]\<rparr>"
  by (simp add: trim_def triangle_tail_def trim_loop.simps to_remove_def degree_def
      remove_nodes_from_def remove_node_def)

text \<open>
  Claim C6. For every graph and every keeper set \<open>K\<close>, \<^verbatim>\<open>trim(graph, keepers=K)\<close> never
  removes a node in \<open>K\<close>, whatever its degree (degree 0 included), and every node of the
  returned graph with degree below 2 is a member of \<open>K\<close>.
\<close>

theorem trim_keeps_keepers:
  "(\<forall>x \<in> set (nodes g). x \<in> K \<longrightarrow> x \<in> set (nodes (trim g K))) \<and>
   (\<forall>x \<in> set (nodes (trim g K)). degree (trim g K) x < 2 \<longrightarrow> x \<in> K)"
proof -
  have "to_remove (trim g K) K = []" by (simp add: trim_def to_remove_trim_loop)
  then have "\<forall>x \<in> set (nodes (trim g K)). \<not> (degree (trim g K) x < 2 \<and> x \<notin> K)"
    unfolding to_remove_def filter_empty_conv by blast
  then show ?thesis by (auto simp: trim_def keeper_in_trim_loop)
qed

text \<open>The isolated keeper 5 of the example graph (degree 0) survives, the tail 3 - 4 goes.\<close>

theorem trim_keeps_keepers_witness:
  "(5 \<in> set (nodes triangle_tail) \<and> (5::nat) \<in> {5} \<and> 5 \<in> set (nodes (trim triangle_tail {5}))) \<and>
   (5 \<in> set (nodes (trim triangle_tail {5})) \<and> degree (trim triangle_tail {5}) 5 < 2 \<and> (5::nat) \<in> {5}) \<and>
   degree triangle_tail 5 = 0 \<and> 4 \<notin> set (nodes (trim triangle_tail {5}))"
  using trim_keeps_keepers [of triangle_tail "{5}"]
  by (simp add: trim_triangle_tail degree_def) (simp add: triangle_tail_def)

text \<open>
  Claim C7. \<^verbatim>\<open>trim\<close> is idempotent: trimming the result of \<^verbatim>\<open>trim\<close> again with the same
  keepers returns the same graph (same nodes and edges).
\<close>

theorem trim_idempotent: "trim (trim g K) K = trim g K"
  unfolding trim_def by (subst trim_loop.simps) (simp add: to_remove_trim_loop)

section \<open>Properties of \<^verbatim>\<open>grow\<close>\<close>

lemma set_nodes_add_node [simp]: "set (nodes (add_node n g)) = insert n (set (nodes g))"
  by (auto simp: add_node_def)

lemma edges_add_node [simp]: "edges (add_node n g) = edges g"
  by (simp add: add_node_def)

lemma add_node_present: "n \<in> set (nodes g) \<Longrightarrow> add_node n g = g"
  by (simp add: add_node_def)

lemma set_nodes_add_nodes_from [simp]:
  "set (nodes (add_nodes_from ns g)) = set ns \<union> set (nodes g)"
  unfolding add_nodes_from_def by (induction ns arbitrary: g) auto

lemma edges_add_nodes_from [simp]: "edges (add_nodes_from ns g) = edges g"
  unfolding add_nodes_from_def by (induction ns arbitrary: g) auto

lemma has_edge_edge_set: "has_edge g u v \<longleftrightarrow> {u, v} \<in> edge_set g"
  by (auto simp: has_edge_def edge_set_def doubleton_eq_iff image_iff) force+

lemma edge_set_add_node [simp]: "edge_set (add_node n g) = edge_set g"
  by (simp add: edge_set_def)

lemma edge_set_add_nodes_from [simp]: "edge_set (add_nodes_from ns g) = edge_set g"
  by (simp add: edge_set_def)

lemma has_edge_add_node [simp]: "has_edge (add_node n g) u v = has_edge g u v"
  by (simp add: has_edge_def)

lemma set_nodes_add_edge [simp]:
  "set (nodes (add_edge u v g)) = insert u (insert v (set (nodes g)))"
  by (auto simp: add_edge_def Let_def)

lemma edge_set_add_edge [simp]: "edge_set (add_edge u v g) = insert {u, v} (edge_set g)"
proof (cases "has_edge g u v")
  case True
  then show ?thesis using has_edge_edge_set[of g u v]
    by (auto simp: add_edge_def Let_def)
next
  case False
  then show ?thesis by (simp add: add_edge_def Let_def) (simp add: edge_set_def)
qed

lemma fold_log:
  "fold (\<lambda>x (g, log). (F x g, log @ [x])) xs (g, log) = (fold F xs g, log @ xs)"
  by (induction xs arbitrary: g log) auto

lemma combinations_short: "length xs < 2 \<Longrightarrow> combinations xs = []"
  by (cases xs rule: combinations.cases) (auto simp: less_Suc_eq)

lemma interconnect_inner:
  assumes "a \<in> set (nodes g)"
  shows "set (nodes (fold (\<lambda>rel graph. if rel \<in> set (nodes graph) then add_edge a rel graph else graph) rels g))
           = set (nodes g) \<and>
         edge_set (fold (\<lambda>rel graph. if rel \<in> set (nodes graph) then add_edge a rel graph else graph) rels g)
           = edge_set g \<union> {{a, r} | r. r \<in> set rels \<and> r \<in> set (nodes g)}"
  using assms
proof (induction rels arbitrary: g)
  case Nil
  then show ?case by simp
next
  case (Cons r rels)
  show ?case
  proof (cases "r \<in> set (nodes g)")
    case True
    have "a \<in> set (nodes (add_edge a r g))" by simp
    from Cons.IH[OF this] True Cons.prems show ?thesis by auto
  next
    case False
    with Cons.IH[OF Cons.prems] show ?thesis by auto
  qed
qed

lemma interconnect_graph:
  assumes "set new_artists \<subseteq> set (nodes g)"
  shows "snd (interconnect related new_artists g log) = log @ new_artists \<and>
         set (nodes (fst (interconnect related new_artists g log))) = set (nodes g) \<and>
         edge_set (fst (interconnect related new_artists g log))
           = edge_set g \<union> {{a, r} | a r. a \<in> set new_artists \<and> r \<in> set (related a) \<and> r \<in> set (nodes g)}"
  unfolding interconnect_def fold_log fst_conv snd_conv
  using assms
proof (induction new_artists arbitrary: g)
  case Nil
  then show ?case by simp
next
  case (Cons a as)
  let ?g = "fold (\<lambda>rel graph. if rel \<in> set (nodes graph) then add_edge a rel graph else graph) (related a) g"
  have a: "a \<in> set (nodes g)" using Cons.prems by simp
  note inner = interconnect_inner[OF a, of "related a"]
  have "set as \<subseteq> set (nodes ?g)" using Cons.prems inner by simp
  from Cons.IH[OF this] inner show ?case by auto
qed

lemma seeds_connected_short: "length seeds < 2 \<Longrightarrow> seeds_connected g seeds"
  by (simp add: seeds_connected_def combinations_short)

lemma grow_no_loop:
  assumes "seeds_connected (add_nodes_from (remdups seeds) (copy_or_new graph)) (remdups seeds)"
  shows "grow related seeds graph log =
           Some (Inr (fst (interconnect related (remdups seeds)
                        (add_nodes_from (remdups seeds) (copy_or_new graph)) log)),
                 snd (interconnect related (remdups seeds)
                        (add_nodes_from (remdups seeds) (copy_or_new graph)) log))"
proof -
  have "grow_loop related (remdups seeds) (add_nodes_from (remdups seeds) (copy_or_new graph))
          (remdups seeds) log
        = Some (Inr (add_nodes_from (remdups seeds) (copy_or_new graph), remdups seeds), log)"
    using assms by (subst grow_loop.simps) simp
  then show ?thesis by (simp add: grow_def Let_def)
qed

lemma interconnect_inner_absent:
  "\<forall>r \<in> set rels. r \<notin> set (nodes g) \<Longrightarrow>
   fold (\<lambda>rel graph. if rel \<in> set (nodes graph) then add_edge a rel graph else graph) rels g = g"
  by (induction rels) auto


text \<open>
  Claim C10 ends: \<^verbatim>\<open>grow\<close> is not a no-op on an already connected base graph whenever a
  seed has a related artist present in it. In the base graph with the edge a - b and the
  seeds a and b, the seed a has its related artist b in the graph, and the two are already
  joined: \<^verbatim>\<open>graph.add_edge(a, b)\<close> in the finishing pass adds nothing, and \<^verbatim>\<open>grow\<close> returns
  the base graph as it was.
\<close>

theorem grow_connected_base_counterexample:
  "seeds_connected (add_nodes_from (remdups [''a'', ''b'']) (copy_or_new (Some ab_edge)))
     (remdups [''a'', ''b'']) \<and>
   ''b'' \<in> set (direct ''a'') \<and> ''b'' \<in> set (nodes ab_edge) \<and>
   grow direct [''a'', ''b''] (Some ab_edge) [] = Some (Inr ab_edge, [''a'', ''b''])"
  by code_simp

text \<open>
  Claim C10, amended. When the seeds are already mutually connected in the copy of the base
  graph with the seeds added, which holds in particular for fewer than two seeds, the
  expansion loop of \<^verbatim>\<open>grow\<close> does not run and the finishing pass runs over the seeds: the
  relation source is queried once per seed (the log grows by the seeds), and the result is
  the base graph with the seeds as nodes and an edge from each seed to each of its related
  artists that is a node of the graph. So \<^verbatim>\<open>grow\<close> changes an already connected base graph
  whenever a seed has a related artist in it that it is not yet joined to by an edge; when
  every such edge is already there, the edges of the base graph come back unchanged.
\<close>

theorem grow_connected_base:
  assumes "seeds_connected (add_nodes_from (remdups seeds) (copy_or_new graph)) (remdups seeds)
           \<or> length (remdups seeds) < 2"
  shows "\<exists>g'. grow related seeds graph log = Some (Inr g', log @ remdups seeds) \<and>
           set (nodes g') = set (nodes (copy_or_new graph)) \<union> set seeds \<and>
           edge_set g' = edge_set (copy_or_new graph) \<union>
             {{s, r} | s r. s \<in> set seeds \<and> r \<in> set (related s) \<and>
                            r \<in> set (nodes (copy_or_new graph)) \<union> set seeds} \<and>
           ((\<exists>s \<in> set seeds. \<exists>r \<in> set (related s).
                r \<in> set (nodes (copy_or_new graph)) \<union> set seeds \<and> \<not> has_edge (copy_or_new graph) s r)
              \<longrightarrow> edge_set g' \<noteq> edge_set (copy_or_new graph))"
proof -
  let ?start = "add_nodes_from (remdups seeds) (copy_or_new graph)"
  let ?fin = "interconnect related (remdups seeds) ?start log"
  from assms have conn: "seeds_connected ?start (remdups seeds)"
    using seeds_connected_short by blast
  have sub: "set (remdups seeds) \<subseteq> set (nodes ?start)" by simp
  note ic = interconnect_graph[OF sub, of related log]
  have res: "grow related seeds graph log = Some (Inr (fst ?fin), log @ remdups seeds)"
    by (simp add: grow_no_loop[OF conn] ic[THEN conjunct1])
  have nodes: "set (nodes (fst ?fin)) = set (nodes (copy_or_new graph)) \<union> set seeds"
    by (simp add: ic[THEN conjunct2, THEN conjunct1] Un_commute)
  have "edge_set (fst ?fin) = edge_set ?start \<union>
          {{a, r} | a r. a \<in> set (remdups seeds) \<and> r \<in> set (related a) \<and> r \<in> set (nodes ?start)}"
    by (rule ic[THEN conjunct2, THEN conjunct2])
  then have edges: "edge_set (fst ?fin) = edge_set (copy_or_new graph) \<union>
             {{s, r} | s r. s \<in> set seeds \<and> r \<in> set (related s) \<and>
                            r \<in> set (nodes (copy_or_new graph)) \<union> set seeds}"
    by (simp add: Un_commute)
  have ne: "(\<exists>s \<in> set seeds. \<exists>r \<in> set (related s).
                r \<in> set (nodes (copy_or_new graph)) \<union> set seeds \<and> \<not> has_edge (copy_or_new graph) s r)
              \<longrightarrow> edge_set (fst ?fin) \<noteq> edge_set (copy_or_new graph)"
  proof (intro impI, elim bexE conjE)
    fix s r
    assume that: "s \<in> set seeds" "r \<in> set (related s)"
       "r \<in> set (nodes (copy_or_new graph)) \<union> set seeds" "\<not> has_edge (copy_or_new graph) s r"
    have "{s, r} \<in> {{s, r} | s r. s \<in> set seeds \<and> r \<in> set (related s) \<and>
                            r \<in> set (nodes (copy_or_new graph)) \<union> set seeds}"
      using that(1,2,3) by blast
    then have "{s, r} \<in> edge_set (fst ?fin)" unfolding edges by (rule UnI2)
    moreover have "{s, r} \<notin> edge_set (copy_or_new graph)" using that(4) by (simp add: has_edge_edge_set)
    ultimately show "edge_set (fst ?fin) \<noteq> edge_set (copy_or_new graph)" by metis
  qed
  show ?thesis
    by (rule exI[of _ "fst ?fin"], intro conjI) (rule res, rule nodes, rule edges, rule ne)
qed

theorem grow_connected_base_witness:
  "seeds_connected (add_nodes_from (remdups [''a'', ''b'']) (copy_or_new (Some amb))) (remdups [''a'', ''b'']) \<and>
   grow a_to_b_z [''a'', ''b''] (Some amb) [] =
     Some (Inr \<lparr>nodes = [''a'', ''m'', ''b''], edges = [(''a'', ''m''), (''m'', ''b''), (''a'', ''b'')]\<rparr>,
           [''a'', ''b'']) \<and>
   grow a_to_b_z [''b''] None [] = Some (Inr \<lparr>nodes = [''b''], edges = []\<rparr>, [''b''])"
proof -
  have h: "seeds_connected (add_nodes_from (remdups [''a'', ''b'']) (copy_or_new (Some amb))) (remdups [''a'', ''b''])"
    by code_simp
  have e: "grow a_to_b_z [''a'', ''b''] (Some amb) [] =
     Some (Inr \<lparr>nodes = [''a'', ''m'', ''b''], edges = [(''a'', ''m''), (''m'', ''b''), (''a'', ''b'')]\<rparr>,
           [''a'', ''b''])"
    by code_simp
  have e2: "grow a_to_b_z [''b''] None [] = Some (Inr \<lparr>nodes = [''b''], edges = []\<rparr>, [''b''])"
    by code_simp
  from grow_connected_base[OF disjI1[OF h], of a_to_b_z "[]"]
  obtain g' where "grow a_to_b_z [''a'', ''b''] (Some amb) [] = Some (Inr g', [] @ remdups [''a'', ''b''])"
    by blast
  with h e e2 show ?thesis by simp
qed


text \<open>
  Claim C9. For a single seed \<open>a\<close> that is not related to itself, \<^verbatim>\<open>grow({a})\<close> returns the
  graph with the only node \<open>a\<close>, and \<^verbatim>\<open>paths_subgraph\<close> of any graph with the seed set
  \<open>{a}\<close> returns an empty path table and a graph without nodes.
\<close>

theorem single_seed:
  assumes "a \<notin> set (related a)"
  shows "grow related [a] None log = Some (Inr \<lparr>nodes = [a], edges = []\<rparr>, log @ [a]) \<and>
         (\<exists>g'. paths_subgraph g [a] max_len = Inr (g', []) \<and> nodes g' = [])"
proof -
  let ?g = "\<lparr>nodes = [a], edges = []\<rparr>"
  have start: "add_nodes_from (remdups [a]) (copy_or_new None) = ?g"
    by (simp add: add_nodes_from_def add_node_def copy_or_new_def empty_graph_def)
  have "\<forall>r \<in> set (related a). r \<notin> set (nodes ?g)" using assms by auto
  then have "interconnect related [a] ?g log = (?g, log @ [a])"
    unfolding interconnect_def fold_log by (simp add: interconnect_inner_absent)
  moreover have "seeds_connected ?g [a]" by (simp add: seeds_connected_def)
  ultimately have "grow related [a] None log = Some (Inr ?g, log @ [a])"
    using grow_no_loop[of "[a]" None related log] start by simp
  moreover have "paths_subgraph g [a] max_len =
      Inr (remove_nodes_from (nodes g) g, [])"
    by (simp add: paths_subgraph_def path_nodes_def)
  moreover have "nodes (remove_nodes_from (nodes g) g) = []"
    by (simp add: nodes_remove_nodes_from)
  ultimately show ?thesis by simp
qed


theorem single_seed_witness:
  "''a'' \<notin> set (a_to_b_z ''a'') \<and>
   grow a_to_b_z [''a''] None [] = Some (Inr \<lparr>nodes = [''a''], edges = []\<rparr>, [''a'']) \<and>
   paths_subgraph amb [''a''] None = Inr (\<lparr>nodes = [], edges = []\<rparr>, [])"
proof -
  have h: "''a'' \<notin> set (a_to_b_z ''a'')" by (simp add: a_to_b_z_def)
  have e: "paths_subgraph amb [''a''] None = Inr (\<lparr>nodes = [], edges = []\<rparr>, [])" by code_simp
  from single_seed[of "''a''" a_to_b_z "[]" amb None, OF h] h e show ?thesis by simp
qed

lemma grow_loop_stall:
  assumes "\<not> seeds_connected graph seeds"
    and "filter (\<lambda>n. n \<notin> set (nodes graph)) (nodes (fst (expand related new_artists (Some graph) log))) = []"
  shows "grow_loop related seeds graph new_artists log =
           Some (Inl NoNewArtists, snd (expand related new_artists (Some graph) log))"
  using assms by (subst grow_loop.simps) (simp add: Let_def)


text \<open>
  Claim C1 says that \<^verbatim>\<open>grow\<close> raises exactly when an expansion finds no new node while
  some pair of seeds is still disconnected in the current graph, and that it returns
  normally when an expansion finds no new node but its new edges connect all seeds.
  The code tests \<^verbatim>\<open>if not new_artists\<close> right after the expansion, before the loop
  condition is looked at again (lemma \<open>grow_loop_stall\<close>). For the seeds a and b, where a is
  related to b only, the one expansion adds the edge a - b and no node: the seeds are then
  connected, and \<^verbatim>\<open>grow\<close> raises.
\<close>

theorem grow_stall_when_edges_connect:
  "grow direct [''a'', ''b''] None [] = Some (Inl NoNewArtists, [''a'', ''b'']) \<and>
   \<not> seeds_connected \<lparr>nodes = [''a'', ''b''], edges = []\<rparr> [''a'', ''b''] \<and>
   fst (expand direct [''a'', ''b''] (Some \<lparr>nodes = [''a'', ''b''], edges = []\<rparr>) [])
     = \<lparr>nodes = [''a'', ''b''], edges = [(''a'', ''b'')]\<rparr> \<and>
   seeds_connected \<lparr>nodes = [''a'', ''b''], edges = [(''a'', ''b'')]\<rparr> [''a'', ''b'']"
  by code_simp


text \<open>
  Claim C2, the end-to-end scenario: seeds a and b, with a related to x, x related to b and
  b to nobody. The first expansion adds x and the edge a - x; the second adds the edge
  x - b and no node, since b is a seed and already in the graph, so \<^verbatim>\<open>grow\<close> raises with
  the expected graph a - x - b in hand instead of returning it. On that graph \<^verbatim>\<open>trim\<close> with
  keepers a and b changes nothing, and \<^verbatim>\<open>paths_subgraph\<close> returns the graph itself and the
  one path a, x, b, as the claim says.
\<close>

theorem end_to_end_scenario:
  "grow chain [''a'', ''b''] None [] = Some (Inl NoNewArtists, [''a'', ''b'', ''x'']) \<and>
   fst (expand chain [''a'', ''b''] (Some \<lparr>nodes = [''a'', ''b''], edges = []\<rparr>) [])
     = \<lparr>nodes = [''a'', ''b'', ''x''], edges = [(''a'', ''x'')]\<rparr> \<and>
   fst (expand chain [''x''] (Some \<lparr>nodes = [''a'', ''b'', ''x''], edges = [(''a'', ''x'')]\<rparr>) [''a'', ''b''])
     = axb \<and>
   seeds_connected axb [''a'', ''b''] \<and>
   trim axb {''a'', ''b''} = axb \<and>
   paths_subgraph axb [''a'', ''b''] None = Inr (axb, [((''a'', ''b''), [[''a'', ''x'', ''b'']])])"
  by code_simp

section \<open>Properties of \<^verbatim>\<open>paths_subgraph\<close>\<close>

lemma distinct_hd_last: "distinct p \<Longrightarrow> p \<noteq> [] \<Longrightarrow> hd p = last p \<Longrightarrow> p = [hd p]"
  by (cases p) (auto split: if_splits)

lemma simple_paths_from_sound:
  "p \<in> set (simple_paths_from g t U u) \<Longrightarrow> u \<notin> set U \<Longrightarrow>
   p \<noteq> [] \<and> hd p = u \<and> last p = t \<and> distinct p \<and> set (tl p) \<subseteq> set U \<and> successively (has_edge g) p"
proof (induction g t U u arbitrary: p rule: simple_paths_from.induct)
  case (1 g t U u)
  show ?case
  proof (cases "u = t")
    case True
    with 1(2) show ?thesis by (simp add: simple_paths_from.simps)
  next
    case False
    with 1(2) obtain v q where v: "v \<in> set U" "has_edge g u v"
      and q: "q \<in> set (simple_paths_from g t (removeAll v U) v)" and p: "p = u # q"
      by (subst (asm) simple_paths_from.simps) auto
    have "v \<notin> set (removeAll v U)" by simp
    from 1(1)[OF False _ q this] v
    have IH: "q \<noteq> []" "hd q = v" "last q = t" "distinct q" "set (tl q) \<subseteq> set (removeAll v U)"
      "successively (has_edge g) q" by auto
    have "set q \<subseteq> set U" using IH(1,2,5) v(1) by (cases q) auto
    then have "u \<notin> set q" using 1(3) by auto
    with IH v p \<open>set q \<subseteq> set U\<close> show ?thesis by (auto simp: successively_Cons)
  qed
qed

lemma simple_paths_from_complete:
  "p \<noteq> [] \<Longrightarrow> hd p = u \<Longrightarrow> last p = t \<Longrightarrow> distinct p \<Longrightarrow> set (tl p) \<subseteq> set U \<Longrightarrow>
   successively (has_edge g) p \<Longrightarrow> p \<in> set (simple_paths_from g t U u)"
proof (induction g t U u arbitrary: p rule: simple_paths_from.induct)
  case (1 g t U u)
  show ?case
  proof (cases "u = t")
    case True
    with 1(2-5) have "p = [u]" using distinct_hd_last[of p] by simp
    with True show ?thesis by (simp add: simple_paths_from.simps)
  next
    case False
    with 1(2-4) obtain q where p: "p = u # q" and q: "q \<noteq> []"
      by (cases p) (auto split: if_splits)
    let ?v = "hd q"
    have v: "?v \<in> set U" using 1(6) p q by (cases q) auto
    have e: "has_edge g u ?v" using 1(7) p q by (simp add: successively_Cons)
    have "q \<in> set (simple_paths_from g t (removeAll ?v U) ?v)"
    proof (rule 1(1)[OF False _ q refl])
      show "?v \<in> set (filter (has_edge g u) U)" using v e by simp
      show "last q = t" using 1(4) p q by simp
      show "distinct q" using 1(5) p by simp
      show "set (tl q) \<subseteq> set (removeAll ?v U)" using 1(5,6) p q by (cases q) auto
      show "successively (has_edge g) q" using 1(7) p q by (simp add: successively_Cons)
    qed
    with v e p False show ?thesis by (subst simple_paths_from.simps) auto
  qed
qed

lemma set_all_simple_paths:
  assumes "s \<in> set (nodes g)"
  shows "set (all_simple_paths g s t) = {p. is_simple_path g s t p}"
proof (intro set_eqI iffI)
  fix p assume "p \<in> set (all_simple_paths g s t)"
  then have "p \<noteq> [] \<and> hd p = s \<and> last p = t \<and> distinct p \<and>
      set (tl p) \<subseteq> set (removeAll s (nodes g)) \<and> successively (has_edge g) p"
    unfolding all_simple_paths_def by (rule simple_paths_from_sound) simp
  then show "p \<in> {p. is_simple_path g s t p}"
    using assms by (cases p) (auto simp: is_simple_path_def)
next
  fix p assume "p \<in> {p. is_simple_path g s t p}"
  then have p: "p \<noteq> []" "hd p = s" "last p = t" "distinct p" "set p \<subseteq> set (nodes g)"
    "successively (has_edge g) p" by (auto simp: is_simple_path_def)
  then have "set (tl p) \<subseteq> set (removeAll s (nodes g))" by (cases p) auto
  with p show "p \<in> set (all_simple_paths g s t)"
    unfolding all_simple_paths_def by (intro simple_paths_from_complete)
qed

lemma sym_edges_has_edge:
  "(u, v) \<in> set (edges g @ map prod.swap (edges g)) \<longleftrightarrow> has_edge g u v"
  by (auto simp: has_edge_def)

lemma successively_has_path:
  "successively (has_edge g) p \<Longrightarrow> p \<noteq> [] \<Longrightarrow> has_path g (hd p) (last p)"
proof (induction p rule: induct_list012)
  case 1
  then show ?case by simp
next
  case (2 x)
  then show ?case by (simp add: has_path_def)
next
  case (3 x y zs)
  then have "has_path g y (last (y # zs))" and e: "has_edge g x y" by auto
  then have "y = last (y # zs) \<or> (y, last (y # zs)) \<in> (set (edges g @ map prod.swap (edges g)))\<^sup>+"
    by (simp only: has_path_def)
  moreover have "(x, y) \<in> (set (edges g @ map prod.swap (edges g)))\<^sup>+"
    using e sym_edges_has_edge[of x y g] by blast
  ultimately have "(x, last (y # zs)) \<in> (set (edges g @ map prod.swap (edges g)))\<^sup>+"
    by (auto intro: trancl_trans)
  then show ?case by (simp add: has_path_def)
qed

lemma simple_path_has_path: "is_simple_path g s t p \<Longrightarrow> has_path g s t"
  using successively_has_path[of g p] by (auto simp: is_simple_path_def)

lemma wf_has_edge_nodes:
  "wf_graph g \<Longrightarrow> has_edge g u v \<Longrightarrow> u \<in> set (nodes g) \<and> v \<in> set (nodes g)"
  by (fastforce simp: wf_graph_def has_edge_def)

lemma simple_path_extend:
  assumes wf: "wf_graph g" and p: "is_simple_path g s y p" and e: "has_edge g y z"
  shows "\<exists>q. is_simple_path g s z q"
proof (cases "z \<in> set p")
  case True
  then obtain xs ys where split: "p = xs @ z # ys" by (meson split_list)
  have hd: "hd (xs @ [z]) = hd p" unfolding split by (cases xs) auto
  have succ: "successively (has_edge g) (xs @ [z])"
    using p unfolding split is_simple_path_def successively_append_iff
    by (auto simp: successively_Cons)
  have "distinct (xs @ [z])" "set (xs @ [z]) \<subseteq> set (nodes g)"
    using p unfolding split is_simple_path_def by auto
  with hd succ p have "is_simple_path g s z (xs @ [z])"
    by (simp add: is_simple_path_def)
  then show ?thesis ..
next
  case False
  have "z \<in> set (nodes g)" using wf_has_edge_nodes[OF wf e] by simp
  then have "is_simple_path g s z (p @ [z])"
    using p e False unfolding is_simple_path_def
    by (auto simp: successively_append_iff)
  then show ?thesis ..
qed

lemma has_path_simple_path:
  assumes wf: "wf_graph g" and s: "s \<in> set (nodes g)" and hp: "has_path g s t"
  shows "\<exists>p. is_simple_path g s t p"
proof -
  have refl: "is_simple_path g s s [s]" using s by (simp add: is_simple_path_def)
  from hp have "s = t \<or> (s, t) \<in> (set (edges g @ map prod.swap (edges g)))\<^sup>+"
    by (simp only: has_path_def)
  then show ?thesis
  proof
    assume "s = t"
    with refl show ?thesis by blast
  next
    assume "(s, t) \<in> (set (edges g @ map prod.swap (edges g)))\<^sup>+"
    then show ?thesis
    proof (induction rule: trancl_induct)
      case (base y)
      then have "has_edge g s y" by (simp only: sym_edges_has_edge)
      from simple_path_extend[OF wf refl this] show ?case .
    next
      case (step y z)
      from step.IH obtain p where "is_simple_path g s y p" ..
      moreover from step.hyps(2) have "has_edge g y z" by (simp only: sym_edges_has_edge)
      ultimately show ?case by (rule simple_path_extend[OF wf])
    qed
  qed
qed

lemma all_simple_paths_empty_iff:
  assumes "wf_graph g" "s \<in> set (nodes g)"
  shows "all_simple_paths g s t = [] \<longleftrightarrow> \<not> has_path g s t"
proof -
  have "all_simple_paths g s t = [] \<longleftrightarrow> set (all_simple_paths g s t) = {}" by simp
  also have "\<dots> \<longleftrightarrow> \<not> (\<exists>p. is_simple_path g s t p)"
    unfolding set_all_simple_paths[OF assms(2)] by auto
  also have "\<dots> \<longleftrightarrow> \<not> has_path g s t"
    using has_path_simple_path[OF assms, of t] simple_path_has_path[of g s t] by auto
  finally show ?thesis .
qed


lemma collect_Some:
  "collect (Some m) ps acc = acc @ takeWhile (\<lambda>p. int (length p) \<le> m) ps"
  by (induction ps arbitrary: acc) auto

lemma takeWhile_sorted_length:
  "sorted (map length ps) \<Longrightarrow>
   takeWhile (\<lambda>p. int (length p) \<le> m) ps = filter (\<lambda>p. int (length p) \<le> m) ps"
proof (induction ps)
  case Nil
  then show ?case by simp
next
  case (Cons p ps)
  show ?case
  proof (cases "int (length p) \<le> m")
    case True
    with Cons show ?thesis by simp
  next
    case False
    with Cons.prems have "\<forall>q \<in> set ps. \<not> int (length q) \<le> m" by fastforce
    then have "filter (\<lambda>p. int (length p) \<le> m) ps = []" by (simp add: filter_empty_conv)
    with False show ?thesis by simp
  qed
qed

text \<open>What the inner loop collects from the sorted enumeration of the paths \<open>ps\<close>.\<close>

lemma set_collect_bounded:
  "set (collect (Some m) (sort_key length ps) []) = {p \<in> set ps. int (length p) \<le> m}"
  by (simp add: collect_Some takeWhile_sorted_length)

lemma set_collect_shortest:
  "set (collect None (sort_key length ps) []) = {p \<in> set ps. \<forall>q \<in> set ps. length p \<le> length q}"
proof (cases "sort_key length ps")
  case Nil
  then have "ps = []" by (metis set_empty set_sort)
  then show ?thesis by simp
next
  case (Cons x xs)
  have sorted: "sorted (map length (x # xs))" and set: "set ps = set (x # xs)"
    by (metis Cons sorted_sort_key) (metis Cons set_sort)
  then have min: "\<forall>q \<in> set xs. length x \<le> length q" by simp
  have "sorted (map length xs)" using sorted by simp
  then have tw: "takeWhile (\<lambda>p. int (length p) \<le> int (length x)) xs
      = filter (\<lambda>p. int (length p) \<le> int (length x)) xs"
    by (rule takeWhile_sorted_length)
  have "collect None (x # xs) [] = x # takeWhile (\<lambda>p. int (length p) \<le> int (length x)) xs"
    by (simp only: collect.simps collect_Some append_Nil append_Cons)
  then have "collect None (x # xs) [] = x # filter (\<lambda>p. int (length p) \<le> int (length x)) xs"
    by (simp only: tw)
  then have "set (collect None (x # xs) []) = {p \<in> set (x # xs). \<forall>q \<in> set (x # xs). length p \<le> length q}"
    using min by force
  then show ?thesis by (simp only: set Cons)
qed

lemma combinations_subset: "set (combinations xs) \<subseteq> set xs \<times> set xs"
  by (induction xs) auto

lemma paths_loop_ok:
  "\<forall>pair \<in> set pairs. fst pair \<in> set (nodes g) \<and> snd pair \<in> set (nodes g) \<and>
       all_simple_paths g (fst pair) (snd pair) \<noteq> [] \<Longrightarrow>
   paths_loop g max_len pairs tbl = Inr (fold (\<lambda>pair. AList.update pair (entry g max_len pair)) pairs tbl)"
proof (induction pairs arbitrary: tbl)
  case Nil
  show ?case by simp
next
  case (Cons pair pairs)
  then have "sort_key length (all_simple_paths g (fst pair) (snd pair)) \<noteq> []"
    by (metis list.set_intros(1) set_empty set_sort)
  with Cons show ?case by (simp add: shortest_simple_paths_def entry_def Let_def)
qed


lemma map_of_fold_update:
  "map_of (fold (\<lambda>k. AList.update k (f k)) ks tbl) k
     = (if k \<in> set ks then Some (f k) else map_of tbl k)"
  by (induction ks arbitrary: tbl) (auto simp: update_conv')

lemma keys_fold_update:
  "fst ` set (fold (\<lambda>k. AList.update k (f k)) ks tbl) = set ks \<union> fst ` set tbl"
proof -
  have "dom (map_of (fold (\<lambda>k. AList.update k (f k)) ks tbl)) = set ks \<union> dom (map_of tbl)"
    by (auto simp: map_of_fold_update dom_def)
  then show ?thesis by (simp only: dom_map_of_conv_image_fst)
qed

lemma fold_path_union: "fold (\<lambda>path keepers. keepers \<union> set path) ps K = K \<union> \<Union> (set ` set ps)"
  by (induction ps arbitrary: K) auto

lemma path_nodes_eq: "path_nodes tbl = {n. \<exists>e \<in> set tbl. \<exists>p \<in> set (snd e). n \<in> set p}"
proof -
  have "fold (\<lambda>entry keepers. fold (\<lambda>path keepers. keepers \<union> set path) (snd entry) keepers) tbl K
        = K \<union> {n. \<exists>e \<in> set tbl. \<exists>p \<in> set (snd e). n \<in> set p}" for K
    by (induction tbl arbitrary: K) (auto simp: fold_path_union)
  then show ?thesis by (simp add: path_nodes_def)
qed

lemma combinations_members:
  "pair \<in> set (combinations xs) \<Longrightarrow> fst pair \<in> set xs \<and> snd pair \<in> set xs"
  by (induction xs) auto

lemma distinct_fold_update:
  "distinct (map fst tbl) \<Longrightarrow> distinct (map fst (fold (\<lambda>k. AList.update k (f k)) ks tbl))"
  by (induction ks arbitrary: tbl) (auto simp: distinct_update)

lemma set_fold_update_Nil:
  "set (fold (\<lambda>k. AList.update k (f k)) ks []) = (\<lambda>k. (k, f k)) ` set ks"
proof -
  let ?T = "fold (\<lambda>k. AList.update k (f k)) ks []"
  have d: "distinct (map fst ?T)" by (rule distinct_fold_update) simp
  have "(k, v) \<in> set ?T \<longleftrightarrow> k \<in> set ks \<and> v = f k" for k v
    using map_of_eq_Some_iff[OF d, of k v] by (auto simp: map_of_fold_update split: if_splits)
  then show ?thesis by auto
qed

lemma nodes_keep:
  "set (nodes (remove_nodes_from (filter (\<lambda>n. n \<notin> K) (nodes g)) g)) = set (nodes g) \<inter> K"
  by (auto simp: nodes_remove_nodes_from)

lemma paths_subgraph_connected:
  assumes wf: "wf_graph g" and sub: "set seeds \<subseteq> set (nodes g)" and conn: "seeds_connected g seeds"
  shows "paths_subgraph g seeds max_len =
           Inr (remove_nodes_from
                  (filter (\<lambda>n. n \<notin> path_nodes (fold (\<lambda>pair. AList.update pair (entry g max_len pair)) (combinations seeds) []))
                     (nodes g)) g,
                fold (\<lambda>pair. AList.update pair (entry g max_len pair)) (combinations seeds) [])"
proof -
  have "fst pair \<in> set (nodes g) \<and> snd pair \<in> set (nodes g) \<and>
        all_simple_paths g (fst pair) (snd pair) \<noteq> []" if "pair \<in> set (combinations seeds)" for pair
  proof -
    from combinations_members[OF that] sub
    have n: "fst pair \<in> set (nodes g)" "snd pair \<in> set (nodes g)" by auto
    from that conn have "has_path g (fst pair) (snd pair)"
      by (simp add: seeds_connected_def list_all_iff)
    with all_simple_paths_empty_iff[OF wf n(1), of "snd pair"] n show ?thesis by simp
  qed
  then have "paths_loop g max_len (combinations seeds) []
      = Inr (fold (\<lambda>pair. AList.update pair (entry g max_len pair)) (combinations seeds) [])"
    by (intro paths_loop_ok) blast
  then show ?thesis by (simp add: paths_subgraph_def Let_def)
qed

lemma entry_simple:
  assumes "pair \<in> set (combinations seeds)" "set seeds \<subseteq> set (nodes g)" "p \<in> set (entry g max_len pair)"
  shows "is_simple_path g (fst pair) (snd pair) p"
proof -
  from combinations_members[OF assms(1)] assms(2) have s: "fst pair \<in> set (nodes g)" by auto
  have "set (entry g max_len pair) \<subseteq> set (all_simple_paths g (fst pair) (snd pair))"
    by (cases max_len) (auto simp: entry_def set_collect_bounded set_collect_shortest)
  with assms(3) set_all_simple_paths[OF s, of "snd pair"] show ?thesis by auto
qed

lemma reduced_nodes:
  assumes sub: "set seeds \<subseteq> set (nodes g)"
  shows "set (nodes (remove_nodes_from
            (filter (\<lambda>n. n \<notin> path_nodes (fold (\<lambda>pair. AList.update pair (entry g max_len pair)) (combinations seeds) []))
               (nodes g)) g))
         = {n. \<exists>pair \<in> set (combinations seeds). \<exists>p \<in> set (entry g max_len pair). n \<in> set p}"
proof -
  let ?T = "fold (\<lambda>pair. AList.update pair (entry g max_len pair)) (combinations seeds) []"
  have pn: "path_nodes ?T = {n. \<exists>pair \<in> set (combinations seeds). \<exists>p \<in> set (entry g max_len pair). n \<in> set p}"
    unfolding path_nodes_eq set_fold_update_Nil by auto
  have "path_nodes ?T \<subseteq> set (nodes g)"
  proof
    fix n assume "n \<in> path_nodes ?T"
    then obtain pair p where "pair \<in> set (combinations seeds)" "p \<in> set (entry g max_len pair)" "n \<in> set p"
      unfolding pn by blast
    with entry_simple[OF this(1) sub this(2)] show "n \<in> set (nodes g)"
      by (auto simp: is_simple_path_def)
  qed
  then show ?thesis unfolding nodes_keep pn[symmetric] by blast
qed




text \<open>
  Claim C4 speaks of every graph and seed set. Node 2 is isolated in the example: there is
  no simple path from 0 to 2, and with a bound of 5 the call raises instead of returning a
  table with an empty entry.
\<close>

theorem bounded_paths_counterexample:
  "all_simple_paths one_edge 0 2 = [] \<and>
   paths_subgraph one_edge [0, 2] (Some 5) = Inl NetworkXNoPath"
  by code_simp

text \<open>
  Claim C4, amended. For every graph, every list of seeds that are nodes of it and pairwise
  connected, and every bound \<open>max_len\<close>, \<^verbatim>\<open>paths_subgraph\<close> returns; the keys of the table
  are the pairs of \<^verbatim>\<open>combinations(seeds, 2)\<close>; the entry of each pair holds exactly the simple
  paths between the two seeds whose length, the number of nodes \<^verbatim>\<open>len(path)\<close>, is at most
  \<open>max_len\<close>; and the nodes of the reduced graph are exactly the nodes on collected paths.
\<close>

theorem bounded_paths:
  assumes "wf_graph g" and "set seeds \<subseteq> set (nodes g)" and "seeds_connected g seeds"
  shows "\<exists>g' tbl. paths_subgraph g seeds (Some m) = Inr (g', tbl) \<and>
           fst ` set tbl = set (combinations seeds) \<and>
           (\<forall>pair \<in> set (combinations seeds). \<exists>ps. map_of tbl pair = Some ps \<and>
               set ps = {p. is_simple_path g (fst pair) (snd pair) p \<and> int (length p) \<le> m}) \<and>
           set (nodes g') = {n. \<exists>pair \<in> set (combinations seeds). \<exists>p.
               is_simple_path g (fst pair) (snd pair) p \<and> int (length p) \<le> m \<and> n \<in> set p}"
proof -
  let ?T = "fold (\<lambda>pair. AList.update pair (entry g (Some m) pair)) (combinations seeds) []"
  let ?g' = "remove_nodes_from (filter (\<lambda>n. n \<notin> path_nodes ?T) (nodes g)) g"
  have entry: "set (entry g (Some m) pair)
      = {p. is_simple_path g (fst pair) (snd pair) p \<and> int (length p) \<le> m}"
    if "pair \<in> set (combinations seeds)" for pair
  proof -
    from combinations_members[OF that] assms(2) have "fst pair \<in> set (nodes g)" by auto
    from set_all_simple_paths[OF this, of "snd pair"] show ?thesis
      by (simp add: entry_def set_collect_bounded)
  qed
  have 1: "paths_subgraph g seeds (Some m) = Inr (?g', ?T)"
    by (rule paths_subgraph_connected[OF assms])
  have 2: "fst ` set ?T = set (combinations seeds)" by (simp add: keys_fold_update)
  have 3: "\<forall>pair \<in> set (combinations seeds). \<exists>ps. map_of ?T pair = Some ps \<and>
               set ps = {p. is_simple_path g (fst pair) (snd pair) p \<and> int (length p) \<le> m}"
    using entry by (simp add: map_of_fold_update)
  have 4: "set (nodes ?g') = {n. \<exists>pair \<in> set (combinations seeds). \<exists>p.
               is_simple_path g (fst pair) (snd pair) p \<and> int (length p) \<le> m \<and> n \<in> set p}"
    unfolding reduced_nodes[OF assms(2)] using entry by auto
  show ?thesis
    by (rule exI[of _ ?g'], rule exI[of _ ?T], intro conjI) (rule 1, rule 2, rule 3, rule 4)
qed

text \<open>With the bound 3 both routes of three nodes are collected and the route over u and v
  is not, so u and v leave the graph; with the bound 2 and the only path a, x, b the entry is
  empty and no node is left.\<close>

theorem bounded_paths_witness:
  "wf_graph two_routes \<and> set [''A'', ''B''] \<subseteq> set (nodes two_routes) \<and>
   seeds_connected two_routes [''A'', ''B''] \<and>
   paths_subgraph two_routes [''A'', ''B''] (Some 3) =
     Inr (\<lparr>nodes = [''A'', ''B'', ''m'', ''n''],
           edges = [(''A'', ''m''), (''m'', ''B''), (''A'', ''n''), (''n'', ''B'')]\<rparr>,
          [((''A'', ''B''), [[''A'', ''m'', ''B''], [''A'', ''n'', ''B'']])]) \<and>
   wf_graph axb \<and> set [''a'', ''b''] \<subseteq> set (nodes axb) \<and> seeds_connected axb [''a'', ''b''] \<and>
   paths_subgraph axb [''a'', ''b''] (Some 2) = Inr (\<lparr>nodes = [], edges = []\<rparr>, [((''a'', ''b''), [])])"
proof -
  have k1: "wf_graph two_routes" by code_simp
  have k2: "set [''A'', ''B''] \<subseteq> set (nodes two_routes)" by code_simp
  have "is_simple_path two_routes ''A'' ''B'' [''A'', ''m'', ''B'']" by code_simp
  then have k3: "seeds_connected two_routes [''A'', ''B'']"
    by (simp add: seeds_connected_def simple_path_has_path)
  have e: "paths_subgraph two_routes [''A'', ''B''] (Some 3) =
     Inr (\<lparr>nodes = [''A'', ''B'', ''m'', ''n''],
           edges = [(''A'', ''m''), (''m'', ''B''), (''A'', ''n''), (''n'', ''B'')]\<rparr>,
          [((''A'', ''B''), [[''A'', ''m'', ''B''], [''A'', ''n'', ''B'']])])" by code_simp
  have a1: "wf_graph axb" by code_simp
  have a2: "set [''a'', ''b''] \<subseteq> set (nodes axb)" by code_simp
  have a3: "seeds_connected axb [''a'', ''b'']" by code_simp
  have f: "paths_subgraph axb [''a'', ''b''] (Some 2) = Inr (\<lparr>nodes = [], edges = []\<rparr>, [((''a'', ''b''), [])])"
    by code_simp
  from bounded_paths[OF k1 k2 k3, of 3] obtain g' tbl
    where "paths_subgraph two_routes [''A'', ''B''] (Some 3) = Inr (g', tbl)" by blast
  moreover from bounded_paths[OF a1 a2 a3, of 2] obtain g'' tbl'
    where "paths_subgraph axb [''a'', ''b''] (Some 2) = Inr (g'', tbl')" by blast
  ultimately show ?thesis using k1 k2 k3 e a1 a2 a3 f by blast
qed

text \<open>
  Claim C5 speaks of every graph and seed set. In the example 0 and 1 are joined, 0 and 2
  are not: without a bound the call raises at the pair (0, 2) and returns no table.
\<close>

theorem shortest_paths_counterexample:
  "has_path two_edges 0 1 \<and> \<not> has_path two_edges 0 2 \<and>
   paths_subgraph two_edges [0, 1, 2] None = Inl NetworkXNoPath"
  by code_simp

text \<open>
  Claim C5, amended. For every graph and every list of seeds that are nodes of it and
  pairwise connected, \<^verbatim>\<open>paths_subgraph\<close> without \<open>max_len\<close> returns, and the entry of each
  pair of \<^verbatim>\<open>combinations(seeds, 2)\<close> is not empty and holds exactly the simple paths of
  minimal length between the two seeds: all of them, and no longer one.
\<close>

theorem shortest_paths:
  assumes "wf_graph g" and "set seeds \<subseteq> set (nodes g)" and "seeds_connected g seeds"
  shows "\<exists>g' tbl. paths_subgraph g seeds None = Inr (g', tbl) \<and>
           fst ` set tbl = set (combinations seeds) \<and>
           (\<forall>pair \<in> set (combinations seeds). \<exists>ps. map_of tbl pair = Some ps \<and> ps \<noteq> [] \<and>
               set ps = {p. is_simple_path g (fst pair) (snd pair) p \<and>
                            (\<forall>q. is_simple_path g (fst pair) (snd pair) q \<longrightarrow> length p \<le> length q)})"
proof -
  let ?T = "fold (\<lambda>pair. AList.update pair (entry g None pair)) (combinations seeds) []"
  let ?g' = "remove_nodes_from (filter (\<lambda>n. n \<notin> path_nodes ?T) (nodes g)) g"
  have entry: "entry g None pair \<noteq> [] \<and> set (entry g None pair)
      = {p. is_simple_path g (fst pair) (snd pair) p \<and>
            (\<forall>q. is_simple_path g (fst pair) (snd pair) q \<longrightarrow> length p \<le> length q)}"
    if "pair \<in> set (combinations seeds)" for pair
  proof -
    from combinations_members[OF that] assms(2) have s: "fst pair \<in> set (nodes g)" by auto
    from that assms(3) have "has_path g (fst pair) (snd pair)"
      by (simp add: seeds_connected_def list_all_iff)
    with all_simple_paths_empty_iff[OF assms(1) s, of "snd pair"]
    have "sort_key length (all_simple_paths g (fst pair) (snd pair)) \<noteq> []"
      by (metis set_empty set_sort)
    then have "entry g None pair \<noteq> []"
      by (cases "sort_key length (all_simple_paths g (fst pair) (snd pair))")
         (simp_all add: entry_def collect_Some)
    moreover from set_all_simple_paths[OF s, of "snd pair"]
    have "set (entry g None pair) = {p. is_simple_path g (fst pair) (snd pair) p \<and>
            (\<forall>q. is_simple_path g (fst pair) (snd pair) q \<longrightarrow> length p \<le> length q)}"
      by (simp add: entry_def set_collect_shortest)
    ultimately show ?thesis ..
  qed
  have 1: "paths_subgraph g seeds None = Inr (?g', ?T)"
    by (rule paths_subgraph_connected[OF assms])
  have 2: "fst ` set ?T = set (combinations seeds)" by (simp add: keys_fold_update)
  have 3: "\<forall>pair \<in> set (combinations seeds). \<exists>ps. map_of ?T pair = Some ps \<and> ps \<noteq> [] \<and>
               set ps = {p. is_simple_path g (fst pair) (snd pair) p \<and>
                            (\<forall>q. is_simple_path g (fst pair) (snd pair) q \<longrightarrow> length p \<le> length q)}"
    using entry by (simp add: map_of_fold_update)
  show ?thesis
    by (rule exI[of _ ?g'], rule exI[of _ ?T], intro conjI) (rule 1, rule 2, rule 3)
qed

text \<open>Both shortest routes between A and B are returned, the longer simple path over u
  and v is not.\<close>

theorem shortest_paths_witness:
  "wf_graph two_routes \<and> set [''A'', ''B''] \<subseteq> set (nodes two_routes) \<and>
   seeds_connected two_routes [''A'', ''B''] \<and>
   paths_subgraph two_routes [''A'', ''B''] None =
     Inr (\<lparr>nodes = [''A'', ''B'', ''m'', ''n''],
           edges = [(''A'', ''m''), (''m'', ''B''), (''A'', ''n''), (''n'', ''B'')]\<rparr>,
          [((''A'', ''B''), [[''A'', ''m'', ''B''], [''A'', ''n'', ''B'']])]) \<and>
   is_simple_path two_routes ''A'' ''B'' [''A'', ''u'', ''v'', ''B'']"
proof -
  have k1: "wf_graph two_routes" by code_simp
  have k2: "set [''A'', ''B''] \<subseteq> set (nodes two_routes)" by code_simp
  have "is_simple_path two_routes ''A'' ''B'' [''A'', ''m'', ''B'']" by code_simp
  then have k3: "seeds_connected two_routes [''A'', ''B'']"
    by (simp add: seeds_connected_def simple_path_has_path)
  have e: "paths_subgraph two_routes [''A'', ''B''] None =
     Inr (\<lparr>nodes = [''A'', ''B'', ''m'', ''n''],
           edges = [(''A'', ''m''), (''m'', ''B''), (''A'', ''n''), (''n'', ''B'')]\<rparr>,
          [((''A'', ''B''), [[''A'', ''m'', ''B''], [''A'', ''n'', ''B'']])])" by code_simp
  have l: "is_simple_path two_routes ''A'' ''B'' [''A'', ''u'', ''v'', ''B'']" by code_simp
  from shortest_paths[OF k1 k2 k3] obtain g' tbl
    where "paths_subgraph two_routes [''A'', ''B''] None = Inr (g', tbl)" by blast
  then show ?thesis using k1 k2 k3 e l by blast
qed

section \<open>Properties of the functions on the store\<close>

lemma unchanged_refl: "unchanged h h"
  by (simp add: unchanged_def)

lemma unchanged_trans: "unchanged h h' \<Longrightarrow> unchanged h' h'' \<Longrightarrow> unchanged h h''"
  by (auto simp: unchanged_def)

lemma alloc_heap:
  "fst (alloc g h) = next_ref h" "next_ref (snd (alloc g h)) = Suc (next_ref h)"
  "objects (snd (alloc g h)) (next_ref h) = g"
  "a \<noteq> next_ref h \<Longrightarrow> objects (snd (alloc g h)) a = objects h a"
  by (simp_all add: alloc_def)

lemma copy_or_new_obj_heap:
  "fst (copy_or_new_obj graph h) = next_ref h"
  "next_ref (snd (copy_or_new_obj graph h)) = Suc (next_ref h)"
  "objects (snd (copy_or_new_obj graph h)) (next_ref h) = copy_or_new (map_option (objects h) graph)"
  "a \<noteq> next_ref h \<Longrightarrow> objects (snd (copy_or_new_obj graph h)) a = objects h a"
  by (cases graph; simp add: copy_or_new_obj_def copy_or_new_def alloc_def)+

lemma modify_heap:
  "next_ref (modify r f h) = next_ref h"
  "objects (modify r f h) r = f (objects h r)"
  "a \<noteq> r \<Longrightarrow> objects (modify r f h) a = objects h a"
  by (simp_all add: modify_def)

lemma fold_modify_heap:
  "next_ref (fold (\<lambda>x. modify r (F x)) xs h) = next_ref h"
  "objects (fold (\<lambda>x. modify r (F x)) xs h) r = fold F xs (objects h r)"
  "a \<noteq> r \<Longrightarrow> objects (fold (\<lambda>x. modify r (F x)) xs h) a = objects h a"
  by (induction xs arbitrary: h) (simp_all add: modify_heap)

lemma fst_fold_log: "fst (fold (\<lambda>x (g, log). (F x g, log @ [x])) xs (g, log)) = fold F xs g"
  by (induction xs arbitrary: g log) auto

lemma expand_obj_heap:
  "fst (expand_obj related artists graph h) = next_ref h"
  "next_ref (snd (expand_obj related artists graph h)) = Suc (next_ref h)"
  "objects (snd (expand_obj related artists graph h)) (next_ref h)
     = fst (expand related artists (map_option (objects h) graph) log)"
  "a \<noteq> next_ref h \<Longrightarrow> objects (snd (expand_obj related artists graph h)) a = objects h a"
  by (simp_all add: expand_obj_def expand_def Let_def copy_or_new_obj_heap fold_modify_heap
      modify_heap fst_fold_log)

lemma expand_obj_unchanged: "unchanged h (snd (expand_obj related artists graph h))"
  by (simp add: unchanged_def expand_obj_heap)

lemma grow_obj_loop_frame:
  assumes "grow_obj_loop related seeds graph new_artists h = Some y"
  shows "graph < next_ref h \<longrightarrow>
         unchanged h (snd y) \<and>
         (\<forall>r na. fst y = Inr (r, na) \<longrightarrow> (r = graph \<or> next_ref h \<le> r) \<and> r < next_ref (snd y))"
  using assms
proof (induction related seeds graph new_artists h y rule: grow_obj_loop.raw_induct[rotated 1, consumes 1])
  case (1 loop related seeds graph new_artists h y)
  show ?case
  proof (cases "seeds_connected (objects h graph) seeds")
    case True
    with 1(2) show ?thesis by (auto simp: unchanged_refl)
  next
    case False
    let ?new = "expand_obj related new_artists (Some graph) h"
    let ?h = "snd ?new"
    let ?na = "filter (\<lambda>n. n \<notin> set (nodes (objects ?h graph))) (nodes (objects ?h (fst ?new)))"
    show ?thesis
    proof (cases "?na = []")
      case True
      with False 1(2) have "y = (Inl NoNewArtists, ?h)" by (simp add: Let_def)
      then show ?thesis by (simp add: expand_obj_unchanged)
    next
      case na: False
      with False 1(2) have "loop related seeds (fst ?new) ?na ?h = Some y" by (simp add: Let_def)
      from 1(1)[OF this]
      have IH: "unchanged ?h (snd y) \<and>
         (\<forall>r na. fst y = Inr (r, na) \<longrightarrow> (r = fst ?new \<or> next_ref ?h \<le> r) \<and> r < next_ref (snd y))"
        by (simp add: expand_obj_heap)
      then have "unchanged h (snd y)"
        using expand_obj_unchanged unchanged_trans by blast
      moreover have "(r = graph \<or> next_ref h \<le> r) \<and> r < next_ref (snd y)"
        if "fst y = Inr (r, na)" for r na
        using IH that by (auto simp: expand_obj_heap)
      ultimately show ?thesis by blast
    qed
  qed
qed

lemma interconnect_obj_heap:
  "next_ref (interconnect_obj related new_artists r h) = next_ref h"
  "a \<noteq> r \<Longrightarrow> objects (interconnect_obj related new_artists r h) a = objects h a"
proof -
  have inner: "next_ref (fold (\<lambda>rel h. if rel \<in> set (nodes (objects h r))
                            then modify r (add_edge artist rel) h else h) rels h) = next_ref h \<and>
        (a \<noteq> r \<longrightarrow> objects (fold (\<lambda>rel h. if rel \<in> set (nodes (objects h r))
                            then modify r (add_edge artist rel) h else h) rels h) a = objects h a)"
    for artist rels and h :: "'a heap"
    by (induction rels arbitrary: h) (simp_all add: modify_heap)
  have "next_ref (interconnect_obj related new_artists r h) = next_ref h \<and>
        (a \<noteq> r \<longrightarrow> objects (interconnect_obj related new_artists r h) a = objects h a)"
    unfolding interconnect_obj_def
    by (induction new_artists arbitrary: h) (simp_all add: inner)
  then show "next_ref (interconnect_obj related new_artists r h) = next_ref h"
    "a \<noteq> r \<Longrightarrow> objects (interconnect_obj related new_artists r h) a = objects h a"
    by simp_all
qed

lemma grow_obj_frame:
  assumes "grow_obj related seeds graph h = Some (res, h')"
  shows "unchanged h h' \<and> (\<forall>r. res = Inr r \<longrightarrow> fresh_result h r h')"
proof -
  let ?new = "copy_or_new_obj graph h"
  let ?h1 = "modify (fst ?new) (add_nodes_from (remdups seeds)) (snd ?new)"
  have h1: "next_ref ?h1 = Suc (next_ref h)" "fst ?new = next_ref h"
    "\<And>a. a < next_ref h \<Longrightarrow> objects ?h1 a = objects h a"
    by (simp_all add: modify_heap copy_or_new_obj_heap)
  then have u1: "unchanged h ?h1" by (simp add: unchanged_def)
  from assms obtain y where y: "grow_obj_loop related (remdups seeds) (fst ?new) (remdups seeds) ?h1 = Some y"
    by (auto simp: grow_obj_def Let_def split: option.splits)
  from grow_obj_loop_frame[OF y] h1
  have fr: "unchanged ?h1 (snd y)"
    "\<And>r na. fst y = Inr (r, na) \<Longrightarrow> next_ref h \<le> r \<and> r < next_ref (snd y)"
    by auto
  show ?thesis
  proof (cases "fst y")
    case (Inl e)
    with assms y have "h' = snd y" "res = Inl e"
      by (auto simp: grow_obj_def Let_def split: prod.splits)
    with fr(1) u1 show ?thesis using unchanged_trans by auto
  next
    case (Inr p)
    obtain r na where p: "p = (r, na)" by (cases p)
    with Inr assms y have res: "res = Inr r" "h' = interconnect_obj related na r (snd y)"
      by (auto simp: grow_obj_def Let_def split: prod.splits)
    from fr(2)[of r na] Inr p have r: "next_ref h \<le> r" "r < next_ref (snd y)" by auto
    have "objects h' a = objects (snd y) a" if "a < next_ref h" for a
      using that r(1) unfolding res by (intro interconnect_obj_heap) simp
    moreover have "next_ref h' = next_ref (snd y)" unfolding res by (rule interconnect_obj_heap)
    moreover have "unchanged h (snd y)" using fr(1) u1 unchanged_trans by blast
    ultimately have "unchanged h h'" by (simp add: unchanged_def)
    with r res show ?thesis by (simp add: fresh_result_def interconnect_obj_heap)
  qed
qed

lemma trim_obj_loop_heap:
  "next_ref (trim_obj_loop r keepers h) = next_ref h \<and>
   objects (trim_obj_loop r keepers h) r = trim_loop (objects h r) keepers \<and>
   (\<forall>a. a \<noteq> r \<longrightarrow> objects (trim_obj_loop r keepers h) a = objects h a)"
proof (induction r keepers h rule: trim_obj_loop.induct)
  case (1 graph keepers h)
  show ?case
  proof (cases "to_remove (objects h graph) keepers = []")
    case True
    then show ?thesis
      by (subst (1 2 3) trim_obj_loop.simps, subst trim_loop.simps) simp
  next
    case False
    with 1[OF False] show ?thesis
      by (subst (1 2 3) trim_obj_loop.simps, subst trim_loop.simps) (simp add: modify_heap)
  qed
qed

lemma trim_obj_frame:
  "fresh_result h (fst (trim_obj g keepers h)) (snd (trim_obj g keepers h))"
  by (simp add: trim_obj_def Let_def fresh_result_def unchanged_def trim_obj_loop_heap alloc_heap)

lemma paths_subgraph_obj_frame:
  "unchanged h (snd (paths_subgraph_obj g seeds max_len h)) \<and>
   (\<forall>r paths. fst (paths_subgraph_obj g seeds max_len h) = Inr (r, paths) \<longrightarrow>
       fresh_result h r (snd (paths_subgraph_obj g seeds max_len h)))"
  by (auto simp: paths_subgraph_obj_def Let_def fresh_result_def unchanged_def alloc_heap modify_heap
      split: sum.splits)

lemma expand_obj_frame:
  "fresh_result h (fst (expand_obj related artists graph h)) (snd (expand_obj related artists graph h))"
  by (simp add: fresh_result_def unchanged_def expand_obj_heap)

text \<open>The frontier of the value-level model and of the object-level model agree.\<close>

lemma grow_obj_loop_agrees:
  assumes "grow_obj_loop related seeds graph new_artists h = Some y"
  shows "graph < next_ref h \<longrightarrow>
         (\<forall>log. \<exists>log'. grow_loop related seeds (objects h graph) new_artists log
            = Some (map_sum (\<lambda>e. e) (\<lambda>p. (objects (snd y) (fst p), snd p)) (fst y), log'))"
  using assms
proof (induction related seeds graph new_artists h y rule: grow_obj_loop.raw_induct[rotated 1, consumes 1])
  case (1 loop related seeds graph new_artists h y)
  show ?case
  proof (intro impI allI)
    fix log
    assume valid: "graph < next_ref h"
    let ?new = "expand_obj related new_artists (Some graph) h"
    let ?h = "snd ?new"
    let ?val = "expand related new_artists (Some (objects h graph)) log"
    let ?na = "filter (\<lambda>n. n \<notin> set (nodes (objects h graph))) (nodes (fst ?val))"
    have new: "fst ?new = next_ref h" "objects ?h (next_ref h) = fst ?val"
      "objects ?h graph = objects h graph" "next_ref ?h = Suc (next_ref h)"
      using valid expand_obj_heap(3)[of related new_artists "Some graph" h log]
      by (simp_all add: expand_obj_heap(1,2,4))
    show "\<exists>log'. grow_loop related seeds (objects h graph) new_artists log
            = Some (map_sum (\<lambda>e. e) (\<lambda>p. (objects (snd y) (fst p), snd p)) (fst y), log')"
    proof (cases "seeds_connected (objects h graph) seeds")
      case True
      with 1(2) have "y = (Inr (graph, new_artists), h)" by simp
      with True show ?thesis by (subst grow_loop.simps) simp
    next
      case False
      show ?thesis
      proof (cases "?na = []")
        case True
        with False 1(2) new have "y = (Inl NoNewArtists, ?h)" by (simp add: Let_def)
        with False True show ?thesis by (subst grow_loop.simps) (simp add: Let_def)
      next
        case na: False
        with False 1(2) new have "loop related seeds (next_ref h) ?na ?h = Some y"
          by (simp add: Let_def)
        from 1(1)[OF this] new
        have "\<forall>loga. \<exists>log'. grow_loop related seeds (fst ?val) ?na loga
             = Some (map_sum (\<lambda>e. e) (\<lambda>p. (objects (snd y) (fst p), snd p)) (fst y), log')"
          by simp
        then obtain log' where
          "grow_loop related seeds (fst ?val) ?na (snd ?val)
             = Some (map_sum (\<lambda>e. e) (\<lambda>p. (objects (snd y) (fst p), snd p)) (fst y), log')"
          by blast
        with False na show ?thesis by (subst grow_loop.simps) (simp add: Let_def)
      qed
    qed
  qed
qed

lemma interconnect_obj_agrees:
  "objects (interconnect_obj related new_artists r h) r
     = fst (interconnect related new_artists (objects h r) log)"
proof -
  have inner: "objects (fold (\<lambda>rel h. if rel \<in> set (nodes (objects h r))
                            then modify r (add_edge artist rel) h else h) rels h) r
      = fold (\<lambda>rel graph. if rel \<in> set (nodes graph) then add_edge artist rel graph else graph)
          rels (objects h r)" for artist rels and h :: "'a heap"
    by (induction rels arbitrary: h) (simp_all add: modify_heap)
  have "objects (interconnect_obj related new_artists r h) r
      = fold (\<lambda>artist graph.
                fold (\<lambda>rel graph. if rel \<in> set (nodes graph) then add_edge artist rel graph else graph)
                  (related artist) graph)
          new_artists (objects h r)"
    unfolding interconnect_obj_def
    by (induction new_artists arbitrary: h) (simp_all add: inner)
  then show ?thesis by (simp add: interconnect_def fst_fold_log)
qed

lemma grow_obj_agrees:
  assumes "grow_obj related seeds graph h = Some (res, h')"
  shows "\<exists>log'. grow related seeds (map_option (objects h) graph) log
           = Some (map_sum (\<lambda>e. e) (objects h') res, log')"
proof -
  let ?new = "copy_or_new_obj graph h"
  let ?h1 = "modify (fst ?new) (add_nodes_from (remdups seeds)) (snd ?new)"
  let ?start = "add_nodes_from (remdups seeds) (copy_or_new (map_option (objects h) graph))"
  have h1: "fst ?new = next_ref h" "next_ref ?h1 = Suc (next_ref h)"
    "objects ?h1 (next_ref h) = ?start"
    by (simp_all add: modify_heap copy_or_new_obj_heap)
  from assms obtain y where y: "grow_obj_loop related (remdups seeds) (next_ref h) (remdups seeds) ?h1 = Some y"
    by (auto simp: grow_obj_def Let_def h1(1) split: option.splits)
  from grow_obj_loop_agrees[OF y] h1 obtain log1 where
    v: "grow_loop related (remdups seeds) ?start (remdups seeds) log
          = Some (map_sum (\<lambda>e. e) (\<lambda>p. (objects (snd y) (fst p), snd p)) (fst y), log1)"
    by auto
  show ?thesis
  proof (cases "fst y")
    case (Inl e)
    with assms y have "res = Inl e"
      by (auto simp: grow_obj_def Let_def h1(1) split: prod.splits)
    with v Inl show ?thesis by (simp add: grow_def Let_def)
  next
    case (Inr p)
    obtain r na where p: "p = (r, na)" by (cases p)
    with Inr assms y have res: "res = Inr r" "h' = interconnect_obj related na r (snd y)"
      by (auto simp: grow_obj_def Let_def h1(1) split: prod.splits)
    with v Inr p interconnect_obj_agrees[of related na r "snd y" log1]
    show ?thesis by (simp add: grow_def Let_def)
  qed
qed

lemma trim_obj_agrees:
  "objects (snd (trim_obj g keepers h)) (fst (trim_obj g keepers h)) = trim (objects h g) keepers"
  by (simp add: trim_obj_def Let_def trim_def trim_obj_loop_heap alloc_heap)

lemma paths_subgraph_obj_agrees:
  "map_sum (\<lambda>e. e) (\<lambda>p. (objects (snd (paths_subgraph_obj g seeds max_len h)) (fst p), snd p))
     (fst (paths_subgraph_obj g seeds max_len h))
   = paths_subgraph (objects h g) seeds max_len"
  by (simp add: paths_subgraph_obj_def paths_subgraph_def Let_def alloc_heap modify_heap
      split: sum.splits)

text \<open>
  Claim C8. No core operation changes the graph it is given: after \<^verbatim>\<open>expand\<close>, \<^verbatim>\<open>grow\<close>,
  \<^verbatim>\<open>trim\<close> and \<^verbatim>\<open>paths_subgraph\<close> every graph object that existed before the call, the
  argument among them, has the value it had before (also when the call raises), and the
  graph that is returned is an object created during the call.
\<close>

theorem inputs_not_mutated:
  "fresh_result h (fst (expand_obj related artists graph h)) (snd (expand_obj related artists graph h)) \<and>
   (\<forall>res h'. grow_obj related seeds graph h = Some (res, h') \<longrightarrow>
        unchanged h h' \<and> (\<forall>r. res = Inr r \<longrightarrow> fresh_result h r h')) \<and>
   fresh_result h (fst (trim_obj g keepers h)) (snd (trim_obj g keepers h)) \<and>
   unchanged h (snd (paths_subgraph_obj g seeds' max_len h)) \<and>
   (\<forall>r paths. fst (paths_subgraph_obj g seeds' max_len h) = Inr (r, paths) \<longrightarrow>
        fresh_result h r (snd (paths_subgraph_obj g seeds' max_len h)))"
  using expand_obj_frame[of h related artists graph] grow_obj_frame[of related seeds graph h]
    trim_obj_frame[of h g keepers] paths_subgraph_obj_frame[of h g seeds' max_len]
  by blast


text \<open>The four calls on the store with one graph: object 0 keeps its value, the result
  is a new object.\<close>

theorem inputs_not_mutated_witness:
  "map_option (\<lambda>(res, h'). (res, objects h' 0, objects h' 2, next_ref h', fresh_result one_graph 2 h'))
     (grow_obj meet [''a'', ''b''] (Some 0) one_graph)
     = Some (Inr 2, two_isolated,
             \<lparr>nodes = [''a'', ''b'', ''x''], edges = [(''a'', ''x''), (''b'', ''x'')]\<rparr>, 3, True) \<and>
   (fst (expand_obj meet [''a'', ''b''] (Some 0) one_graph) = 1 \<and>
    objects (snd (expand_obj meet [''a'', ''b''] (Some 0) one_graph)) 0 = two_isolated \<and>
    objects (snd (expand_obj meet [''a'', ''b''] (Some 0) one_graph)) 1
      = \<lparr>nodes = [''a'', ''b'', ''x''], edges = [(''a'', ''x''), (''b'', ''x'')]\<rparr>) \<and>
   (fst (trim_obj 0 {''a''} one_graph) = 1 \<and>
    objects (snd (trim_obj 0 {''a''} one_graph)) 0 = two_isolated \<and>
    objects (snd (trim_obj 0 {''a''} one_graph)) 1 = \<lparr>nodes = [''a''], edges = []\<rparr>) \<and>
   (fst (paths_subgraph_obj 0 [''a''] None one_graph) = Inr (1, []) \<and>
    objects (snd (paths_subgraph_obj 0 [''a''] None one_graph)) 0 = two_isolated \<and>
    objects (snd (paths_subgraph_obj 0 [''a''] None one_graph)) 1 = \<lparr>nodes = [], edges = []\<rparr>)"
proof -
  note frame = inputs_not_mutated[of one_graph meet "[''a'', ''b'']" "Some 0" "[''a'', ''b'']" 0
      "{''a''}" "[''a'']" None]
  have input: "objects one_graph 0 = two_isolated" "next_ref one_graph = 1"
    by (simp_all add: one_graph_def)
  have "map_option (\<lambda>(res, h'). (res, objects h' 2, next_ref h'))
     (grow_obj meet [''a'', ''b''] (Some 0) one_graph)
     = Some (Inr 2, \<lparr>nodes = [''a'', ''b'', ''x''], edges = [(''a'', ''x''), (''b'', ''x'')]\<rparr>, 3)"
    by code_simp
  then obtain h' where h': "grow_obj meet [''a'', ''b''] (Some 0) one_graph = Some (Inr 2, h')"
    "objects h' 2 = \<lparr>nodes = [''a'', ''b'', ''x''], edges = [(''a'', ''x''), (''b'', ''x'')]\<rparr>"
    "next_ref h' = 3"
    by (auto split: prod.splits)
  from frame h'(1) have fresh: "fresh_result one_graph 2 h'" by blast
  then have "objects h' 0 = two_isolated"
    using input by (simp add: fresh_result_def unchanged_def)
  with h' fresh have grow: "map_option (\<lambda>(res, h'). (res, objects h' 0, objects h' 2, next_ref h', fresh_result one_graph 2 h'))
     (grow_obj meet [''a'', ''b''] (Some 0) one_graph)
     = Some (Inr 2, two_isolated,
             \<lparr>nodes = [''a'', ''b'', ''x''], edges = [(''a'', ''x''), (''b'', ''x'')]\<rparr>, 3, True)"
    by simp
  have expand: "fst (expand_obj meet [''a'', ''b''] (Some 0) one_graph) = 1"
    "objects (snd (expand_obj meet [''a'', ''b''] (Some 0) one_graph)) 1
      = \<lparr>nodes = [''a'', ''b'', ''x''], edges = [(''a'', ''x''), (''b'', ''x'')]\<rparr>"
    by code_simp+
  have trim: "fst (trim_obj 0 {''a''} one_graph) = 1"
    "objects (snd (trim_obj 0 {''a''} one_graph)) 1 = \<lparr>nodes = [''a''], edges = []\<rparr>"
    by code_simp+
  have paths: "fst (paths_subgraph_obj 0 [''a''] None one_graph) = Inr (1, [])"
    "objects (snd (paths_subgraph_obj 0 [''a''] None one_graph)) 1 = \<lparr>nodes = [], edges = []\<rparr>"
    by code_simp+
  from frame have
    "objects (snd (expand_obj meet [''a'', ''b''] (Some 0) one_graph)) 0 = two_isolated"
    "objects (snd (trim_obj 0 {''a''} one_graph)) 0 = two_isolated"
    "objects (snd (paths_subgraph_obj 0 [''a''] None one_graph)) 0 = two_isolated"
    using input by (simp_all add: fresh_result_def unchanged_def)
  with grow expand trim paths show ?thesis by simp
qed

end
